theory Spec2Isabelle
  imports Complex_Main
begin

section \<open>Voxel grids (cinolib/voxelize.cpp)\<close>

text \<open>
  Conventions of the embedding.
  \<^item> \<open>uint\<close> indices and the integer dimension vector are natural numbers; the
    development is about grids whose voxel count is a count the buffer can have.
  \<^item> \<open>double\<close> values that the caller supplies (box corners, values of the implicit
    function) are real numbers. Quotients computed by the code are of type \<open>double\<close>
    below, which adds the infinities and NaN that a division by zero produces; rounding
    is not represented.
  \<^item> Reading or writing \<open>g.voxels\<close> out of range, a failing \<open>assert\<close> and a
    conversion to an integer that has no value are faults of the run. They are not
    errors reported to the caller: \<open>voxelize\<close> returns \<open>void\<close> and has no error
    channel.
\<close>

datatype voxel_tag = VOXEL_UNKNOWN | VOXEL_BOUNDARY | VOXEL_INSIDE | VOXEL_OUTSIDE

datatype fault = OutOfBounds | AssertionFailure | BadConversion

type_synonym vec3d = "real \<times> real \<times> real"

type_synonym vec3u = "nat \<times> nat \<times> nat"

subsection \<open>Index serialisation\<close>

text \<open>
  Modelled from the spec: \<open>cinolib/serialize_index.h\<close> is not among the sources.
  The spec fixes \<open>index = i\<cdot>(dim_y\<cdot>dim_z) + j\<cdot>dim_z + k\<close>, z fastest-varying, and
  the call \<open>deserialize_3D_index(index, g.dim[1], g.dim[2])\<close> fixes the parameters.
\<close>

definition serialize_3D_index :: "nat \<Rightarrow> nat \<Rightarrow> nat \<Rightarrow> nat \<Rightarrow> nat \<Rightarrow> nat" where
  "serialize_3D_index i j k dim_j dim_k = i * (dim_j * dim_k) + j * dim_k + k"

definition deserialize_3D_index :: "nat \<Rightarrow> nat \<Rightarrow> nat \<Rightarrow> vec3u" where
  "deserialize_3D_index ijk dim_j dim_k =
     (ijk div (dim_j * dim_k), (ijk div dim_k) mod dim_j, ijk mod dim_k)"

subsection \<open>Bounding volume and grid\<close>

text \<open>
  Modelled from the spec: the declarations of \<open>AABB\<close> and \<open>VoxelGrid\<close> are not among
  the sources. A bounding volume is an axis-aligned box with min/max corners; a voxel
  grid owns the bounding volume, a scalar edge length, a 3-component integer dimension
  vector and the flat classification buffer.
\<close>

record AABB =
  aabb_min :: vec3d
  aabb_max :: vec3d

definition delta_x :: "AABB \<Rightarrow> real" where
  "delta_x b = fst (aabb_max b) - fst (aabb_min b)"

definition delta_y :: "AABB \<Rightarrow> real" where
  "delta_y b = fst (snd (aabb_max b)) - fst (snd (aabb_min b))"

definition delta_z :: "AABB \<Rightarrow> real" where
  "delta_z b = snd (snd (aabb_max b)) - snd (snd (aabb_min b))"

definition delta :: "AABB \<Rightarrow> vec3d" where
  "delta b = (delta_x b, delta_y b, delta_z b)"

definition max_entry :: "vec3d \<Rightarrow> real" where
  "max_entry v = (case v of (x, y, z) \<Rightarrow> max x (max y z))"

datatype double = Finite real | PlusInf | MinusInf | NaN

record VoxelGrid =
  voxels :: "voxel_tag list"
  dim :: vec3u
  len :: double
  bbox :: AABB

subsection \<open>Grid geometry (lines 53-57 and 61-62, 132-136 and 140-141)\<close>

text \<open>The quotient of two finite doubles; a zero divisor gives an infinity or NaN.\<close>

definition double_div :: "real \<Rightarrow> real \<Rightarrow> double" where
  "double_div x y =
     (if y \<noteq> 0 then Finite (x / y)
      else if 0 < x then PlusInf else if x < 0 then MinusInf else NaN)"

text \<open>\<open>x / l\<close> for a finite \<open>x\<close> and the edge length \<open>l\<close>.\<close>

fun div_by_len :: "real \<Rightarrow> double \<Rightarrow> double" where
  "div_by_len x (Finite l) = double_div x l"
| "div_by_len x PlusInf = Finite 0"
| "div_by_len x MinusInf = Finite 0"
| "div_by_len x NaN = NaN"

text \<open>
  \<open>int(ceil(q))\<close> stored as a voxel count: NaN, an infinity and a negative number
  have no value that is a count.
\<close>

fun ceil_count :: "double \<Rightarrow> fault + nat" where
  "ceil_count (Finite q) = (if \<lceil>q\<rceil> < 0 then Inl BadConversion else Inr (nat \<lceil>q\<rceil>))"
| "ceil_count PlusInf = Inl BadConversion"
| "ceil_count MinusInf = Inl BadConversion"
| "ceil_count NaN = Inl BadConversion"

text \<open>
  The grid size across all dimensions, and the allocation \<open>new int[size]\<close>. The fresh
  buffer is uninitialised in the source; the classification pass writes every entry.
\<close>

definition grid_geometry :: "AABB \<Rightarrow> nat \<Rightarrow> fault + VoxelGrid" where
  "grid_geometry box max_voxels_per_side =
     (let l = double_div (max_entry (delta box)) (real max_voxels_per_side) in
      case ceil_count (div_by_len (delta_x box) l) of Inl e \<Rightarrow> Inl e | Inr d0 \<Rightarrow>
      case ceil_count (div_by_len (delta_y box) l) of Inl e \<Rightarrow> Inl e | Inr d1 \<Rightarrow>
      case ceil_count (div_by_len (delta_z box) l) of Inl e \<Rightarrow> Inl e | Inr d2 \<Rightarrow>
      Inr \<lparr>voxels = replicate (d0 * d1 * d2) VOXEL_UNKNOWN, dim = (d0, d1, d2),
           len = l, bbox = box\<rparr>)"

definition grid_size :: "VoxelGrid \<Rightarrow> nat" where
  "grid_size g = (case dim g of (d0, d1, d2) \<Rightarrow> d0 * d1 * d2)"

definition voxel_ijk :: "VoxelGrid \<Rightarrow> nat \<Rightarrow> vec3u" where
  "voxel_ijk g index = (case dim g of (d0, d1, d2) \<Rightarrow> deserialize_3D_index index d1 d2)"

subsection \<open>Mesh variant: boundary classification (lines 65-81)\<close>

text \<open>
  The octree and the box-triangle predicate are external collaborators:
  \<open>hit (bbox g) (len g) ijk\<close> stands for "some triangle of the mesh intersects
  \<open>voxel_bbox(g, ijk)\<close>", a function of the grid's volume and edge length. The work
  items of \<open>PARALLEL_FOR\<close> take effect in some order \<open>order\<close> of the indices below
  \<open>size\<close>; the last write to \<open>flood_seed\<close> wins.
\<close>

definition classify_voxel ::
  "(AABB \<Rightarrow> double \<Rightarrow> vec3u \<Rightarrow> bool) \<Rightarrow> nat \<Rightarrow> VoxelGrid \<times> int \<Rightarrow> VoxelGrid \<times> int" where
  "classify_voxel hit index s =
     (case s of (g, flood_seed) \<Rightarrow>
        (case voxel_ijk g index of (i, j, k) \<Rightarrow>
           let boundary = hit (bbox g) (len g) (i, j, k) in
           (g\<lparr>voxels := (voxels g)[index := (if boundary then VOXEL_BOUNDARY else VOXEL_UNKNOWN)]\<rparr>,
            if \<not> boundary \<and> (i = 0 \<or> j = 0 \<or> k = 0) then int index else flood_seed)))"

definition classification_pass ::
  "(AABB \<Rightarrow> double \<Rightarrow> vec3u \<Rightarrow> bool) \<Rightarrow> nat list \<Rightarrow> VoxelGrid \<Rightarrow> VoxelGrid \<times> int" where
  "classification_pass hit order g = fold (classify_voxel hit) order (g, - 1)"

subsection \<open>Mesh variant: exterior flood-fill (lines 84-107)\<close>

text \<open>
  Modelled from the spec: \<open>voxel_n6\<close> is not among the sources. It lists the
  6-connected face-neighbours of a voxel and skips those that fall outside the grid
  bounds on any axis. The order of the list is a choice of the model.
\<close>

definition voxel_n6 :: "VoxelGrid \<Rightarrow> vec3u \<Rightarrow> nat list" where
  "voxel_n6 g ijk =
     (case dim g of (d0, d1, d2) \<Rightarrow> case ijk of (i, j, k) \<Rightarrow>
        (if 0 < i then [serialize_3D_index (i - 1) j k d1 d2] else []) @
        (if i + 1 < d0 then [serialize_3D_index (i + 1) j k d1 d2] else []) @
        (if 0 < j then [serialize_3D_index i (j - 1) k d1 d2] else []) @
        (if j + 1 < d1 then [serialize_3D_index i (j + 1) k d1 d2] else []) @
        (if 0 < k then [serialize_3D_index i j (k - 1) d1 d2] else []) @
        (if k + 1 < d2 then [serialize_3D_index i j (k + 1) d1 d2] else []))"

text \<open>The loop over \<open>n6\<close> (lines 98-105).\<close>

fun visit_nbrs :: "nat list \<Rightarrow> VoxelGrid \<Rightarrow> nat list \<Rightarrow> fault + (VoxelGrid \<times> nat list)" where
  "visit_nbrs [] g q = Inr (g, q)"
| "visit_nbrs (nbr # n6) g q =
     (if length (voxels g) \<le> nbr then Inl OutOfBounds
      else if voxels g ! nbr = VOXEL_UNKNOWN
      then visit_nbrs n6 (g\<lparr>voxels := (voxels g)[nbr := VOXEL_OUTSIDE]\<rparr>) (q @ [nbr])
      else visit_nbrs n6 g q)"

text \<open>One iteration of the while loop, after \<open>index\<close> was popped (lines 91-105).\<close>

definition flood_body :: "VoxelGrid \<Rightarrow> nat \<Rightarrow> nat list \<Rightarrow> fault + (VoxelGrid \<times> nat list)" where
  "flood_body g index q =
     (if length (voxels g) \<le> index then Inl OutOfBounds
      else if voxels g ! index \<noteq> VOXEL_OUTSIDE then Inl AssertionFailure
      else visit_nbrs (voxel_n6 g (voxel_ijk g index)) g q)"

definition unknowns :: "VoxelGrid \<Rightarrow> nat" where
  "unknowns g = length (filter (\<lambda>t. t = VOXEL_UNKNOWN) (voxels g))"

lemma unknowns_update:
  assumes "nbr < length (voxels g)" "voxels g ! nbr = VOXEL_UNKNOWN"
  shows "unknowns (g\<lparr>voxels := (voxels g)[nbr := VOXEL_OUTSIDE]\<rparr>) < unknowns g"
proof -
  have "\<And>xs. nbr < length xs \<Longrightarrow> xs ! nbr = VOXEL_UNKNOWN \<Longrightarrow>
      Suc (length (filter (\<lambda>t. t = VOXEL_UNKNOWN) (xs[nbr := VOXEL_OUTSIDE])))
        = length (filter (\<lambda>t. t = VOXEL_UNKNOWN) xs)"
  proof (induction nbr)
    case 0
    then show ?case by (cases xs) auto
  next
    case (Suc n)
    then show ?case by (cases xs) auto
  qed
  from this [OF assms] show ?thesis by (simp add: unknowns_def)
qed

lemma visit_nbrs_decreases:
  "visit_nbrs n6 g q = Inr (g', q') \<Longrightarrow>
     unknowns g' < unknowns g \<or> (unknowns g' = unknowns g \<and> q' = q)"
proof (induction n6 arbitrary: g q)
  case Nil
  then show ?case by simp
next
  case (Cons nbr n6)
  show ?case
  proof (cases "voxels g ! nbr = VOXEL_UNKNOWN")
    case True
    with Cons.prems have r: "nbr < length (voxels g)"
      "visit_nbrs n6 (g\<lparr>voxels := (voxels g)[nbr := VOXEL_OUTSIDE]\<rparr>) (q @ [nbr]) = Inr (g', q')"
      by (auto split: if_splits)
    from Cons.IH [OF r(2)] unknowns_update [OF r(1) True] show ?thesis by auto
  next
    case False
    with Cons.prems have "visit_nbrs n6 g q = Inr (g', q')"
      by (auto split: if_splits)
    from Cons.IH [OF this] show ?thesis .
  qed
qed

text \<open>The while loop (lines 89-106); it ends when the queue is empty.\<close>

function flood_loop :: "VoxelGrid \<Rightarrow> nat list \<Rightarrow> fault + VoxelGrid" where
  "flood_loop g [] = Inr g"
| "flood_loop g (index # q) =
     (case flood_body g index q of
        Inl e \<Rightarrow> Inl e
      | Inr (g', q') \<Rightarrow> flood_loop g' q')"
  by pat_completeness auto
termination
proof (relation "measures [\<lambda>(g, q). unknowns g, \<lambda>(g, q). length q]")
  show "wf (measures [\<lambda>(g, q). unknowns g, \<lambda>(g, q). length q])" by simp
next
  fix g index q x2 g' q'
  assume "flood_body g index q = Inr x2" "(g', q') = x2"
  then have "visit_nbrs (voxel_n6 g (voxel_ijk g index)) g q = Inr (g', q')"
    by (auto simp: flood_body_def split: if_splits)
  from visit_nbrs_decreases [OF this]
  show "((g', q'), (g, index # q)) \<in> measures [\<lambda>(g, q). unknowns g, \<lambda>(g, q). length q]"
    by auto
qed

text \<open>The flood stage: it runs when \<open>flood_seed > 0\<close> (line 84).\<close>

definition flood_stage :: "VoxelGrid \<Rightarrow> int \<Rightarrow> fault + VoxelGrid" where
  "flood_stage g flood_seed =
     (if 0 < flood_seed
      then (if length (voxels g) \<le> nat flood_seed then Inl OutOfBounds
            else flood_loop (g\<lparr>voxels := (voxels g)[nat flood_seed := VOXEL_OUTSIDE]\<rparr>)
                   [nat flood_seed])
      else Inr g)"

subsection \<open>Mesh variant: residual pass (lines 110-116) and the whole function\<close>

definition mark_inside :: "nat \<Rightarrow> VoxelGrid \<Rightarrow> VoxelGrid" where
  "mark_inside index g =
     (if voxels g ! index = VOXEL_UNKNOWN
      then g\<lparr>voxels := (voxels g)[index := VOXEL_INSIDE]\<rparr> else g)"

definition residual_pass :: "nat \<Rightarrow> VoxelGrid \<Rightarrow> VoxelGrid" where
  "residual_pass n g = fold mark_inside [0..<n] g"

definition voxelize_mesh ::
  "AABB \<Rightarrow> (AABB \<Rightarrow> double \<Rightarrow> vec3u \<Rightarrow> bool) \<Rightarrow> (nat \<Rightarrow> nat list) \<Rightarrow> nat \<Rightarrow>
     fault + VoxelGrid" where
  "voxelize_mesh m_bbox hit sched max_voxels_per_side =
     (case grid_geometry m_bbox max_voxels_per_side of
        Inl e \<Rightarrow> Inl e
      | Inr g \<Rightarrow>
          (case classification_pass hit (sched (grid_size g)) g of (g1, flood_seed) \<Rightarrow>
             (case flood_stage g1 flood_seed of
                Inl e \<Rightarrow> Inl e
              | Inr g2 \<Rightarrow> Inr (residual_pass (grid_size g) g2))))"

subsection \<open>Implicit-function variant (lines 132-159)\<close>

text \<open>
  \<open>voxel_corner_xyz\<close> is not among the sources; it is the parameter \<open>corner\<close>, a
  function of the grid's volume and edge length, the voxel and the corner offset.
\<close>

definition corner_signs :: "(vec3d \<Rightarrow> real) \<Rightarrow> (nat \<Rightarrow> vec3d) \<Rightarrow> bool \<times> bool \<times> bool" where
  "corner_signs f corner_of =
     fold (\<lambda>off (positive, negative, zero).
             let fp = f (corner_of off)
             in (positive \<or> 0 < fp, negative \<or> fp < 0, zero \<or> fp = 0))
          [0..<8] (False, False, False)"

definition sign_tag :: "bool \<times> bool \<times> bool \<Rightarrow> voxel_tag" where
  "sign_tag s =
     (case s of (positive, negative, zero) \<Rightarrow>
        if positive \<and> \<not> negative \<and> \<not> zero then VOXEL_OUTSIDE
        else if \<not> positive \<and> negative \<and> \<not> zero then VOXEL_INSIDE
        else VOXEL_BOUNDARY)"

definition classify_implicit ::
  "(vec3d \<Rightarrow> real) \<Rightarrow> (AABB \<Rightarrow> double \<Rightarrow> vec3u \<Rightarrow> nat \<Rightarrow> vec3d) \<Rightarrow> nat \<Rightarrow> VoxelGrid \<Rightarrow> VoxelGrid" where
  "classify_implicit f corner index g =
     g\<lparr>voxels := (voxels g)[index :=
          sign_tag (corner_signs f (corner (bbox g) (len g) (voxel_ijk g index)))]\<rparr>"

definition voxelize_implicit ::
  "(vec3d \<Rightarrow> real) \<Rightarrow> (AABB \<Rightarrow> double \<Rightarrow> vec3u \<Rightarrow> nat \<Rightarrow> vec3d) \<Rightarrow> AABB \<Rightarrow>
     (nat \<Rightarrow> nat list) \<Rightarrow> nat \<Rightarrow> fault + VoxelGrid" where
  "voxelize_implicit f corner volume sched max_voxels_per_side =
     (case grid_geometry volume max_voxels_per_side of
        Inl e \<Rightarrow> Inl e
      | Inr g \<Rightarrow> Inr (fold (classify_implicit f corner) (sched (grid_size g)) g))"

subsection \<open>Notions used to state the properties\<close>

text \<open>The buffer has one entry per voxel.\<close>

definition wf_grid :: "VoxelGrid \<Rightarrow> bool" where
  "wf_grid g \<longleftrightarrow> length (voxels g) = grid_size g"

text \<open>The voxel lies on the outer shell that the seed test looks at (line 80).\<close>

definition on_shell :: "vec3u \<Rightarrow> bool" where
  "on_shell ijk = (case ijk of (i, j, k) \<Rightarrow> i = 0 \<or> j = 0 \<or> k = 0)"

text \<open>Two voxels share a face: one coordinate differs by one, the others agree.\<close>

definition face_adjacent :: "vec3u \<Rightarrow> vec3u \<Rightarrow> bool" where
  "face_adjacent a b =
     (case a of (i, j, k) \<Rightarrow> case b of (i', j', k') \<Rightarrow>
        ((i = Suc i' \<or> i' = Suc i) \<and> j = j' \<and> k = k') \<or>
        (i = i' \<and> (j = Suc j' \<or> j' = Suc j) \<and> k = k') \<or>
        (i = i' \<and> j = j' \<and> (k = Suc k' \<or> k' = Suc k)))"

text \<open>
  One step of a path through the grid \<open>g\<close>: from a voxel to a face-neighbour inside the
  grid that is not tagged BOUNDARY in \<open>g\<close>.
\<close>

definition free_step :: "VoxelGrid \<Rightarrow> nat \<Rightarrow> nat \<Rightarrow> bool" where
  "free_step g a b \<longleftrightarrow>
     a < grid_size g \<and> b < grid_size g \<and>
     face_adjacent (voxel_ijk g a) (voxel_ijk g b) \<and> voxels g ! b \<noteq> VOXEL_BOUNDARY"



text \<open>The sequential schedule of the parallel loop.\<close>

definition sequential :: "nat \<Rightarrow> nat list" where
  "sequential n = [0..<n]"

text \<open>Example inputs: the unit cube as bounding volume; a surface that meets every
  voxel of the 2x2x2 grid except the one at the origin (a cube with a notch cut out
  of that corner).\<close>

definition unit_box :: AABB where
  "unit_box = \<lparr>aabb_min = (0, 0, 0), aabb_max = (1, 1, 1)\<rparr>"

definition notch_hit :: "AABB \<Rightarrow> double \<Rightarrow> vec3u \<Rightarrow> bool" where
  "notch_hit b l ijk \<longleftrightarrow> ijk \<noteq> (0, 0, 0)"


text \<open>What line 79 writes for a voxel.\<close>

definition mesh_tag :: "(AABB \<Rightarrow> double \<Rightarrow> vec3u \<Rightarrow> bool) \<Rightarrow> VoxelGrid \<Rightarrow> nat \<Rightarrow> voxel_tag" where
  "mesh_tag hit g index =
     (if hit (bbox g) (len g) (voxel_ijk g index) then VOXEL_BOUNDARY else VOXEL_UNKNOWN)"

text \<open>The test of line 80: a voxel of the shell that is not boundary.\<close>

definition seed_candidate :: "(AABB \<Rightarrow> double \<Rightarrow> vec3u \<Rightarrow> bool) \<Rightarrow> VoxelGrid \<Rightarrow> nat \<Rightarrow> bool" where
  "seed_candidate hit g index \<longleftrightarrow>
     \<not> hit (bbox g) (len g) (voxel_ijk g index) \<and> on_shell (voxel_ijk g index)"

text \<open>Every voxel is tagged BOUNDARY or UNKNOWN, as after the classification pass.\<close>

definition classified :: "VoxelGrid \<Rightarrow> bool" where
  "classified g \<longleftrightarrow>
     (\<forall>i < grid_size g. voxels g ! i = VOXEL_BOUNDARY \<or> voxels g ! i = VOXEL_UNKNOWN)"

text \<open>The loop invariant of the flood, relative to the classified grid \<open>g1\<close> and the
  seed: the geometry is that of \<open>g1\<close>; tags differ from those of \<open>g1\<close> only by
  UNKNOWN turned OUTSIDE; the queue is duplicate-free and holds OUTSIDE voxels; every
  OUTSIDE voxel is reachable from the seed; every OUTSIDE voxel that has left the queue
  has only OUTSIDE voxels one step away.\<close>

definition flood_inv :: "VoxelGrid \<Rightarrow> nat \<Rightarrow> VoxelGrid \<Rightarrow> nat list \<Rightarrow> bool" where
  "flood_inv g1 seed g q \<longleftrightarrow>
     wf_grid g \<and> dim g = dim g1 \<and> len g = len g1 \<and> bbox g = bbox g1 \<and>
     (\<forall>i < grid_size g1. voxels g ! i = voxels g1 ! i \<or>
        (voxels g1 ! i = VOXEL_UNKNOWN \<and> voxels g ! i = VOXEL_OUTSIDE)) \<and>
     distinct q \<and> (\<forall>i \<in> set q. i < grid_size g1 \<and> voxels g ! i = VOXEL_OUTSIDE) \<and>
     (\<forall>i < grid_size g1. voxels g ! i = VOXEL_OUTSIDE \<longrightarrow> (free_step g1)\<^sup>*\<^sup>* seed i) \<and>
     (\<forall>i < grid_size g1. voxels g ! i = VOXEL_OUTSIDE \<and> i \<notin> set q \<longrightarrow>
        (\<forall>n. free_step g1 i n \<longrightarrow> voxels g ! n = VOXEL_OUTSIDE)) \<and>
     seed < grid_size g1 \<and> voxels g ! seed = VOXEL_OUTSIDE"

text \<open>A second example surface: it meets only the voxel farthest from the origin.\<close>

definition far_corner_hit :: "AABB \<Rightarrow> double \<Rightarrow> vec3u \<Rightarrow> bool" where
  "far_corner_hit b l ijk \<longleftrightarrow> ijk = (1, 1, 1)"

text \<open>The 2x2x2 grid over the unit cube, with the given buffer.\<close>

definition grid_2x2x2 :: "voxel_tag list \<Rightarrow> VoxelGrid" where
  "grid_2x2x2 vs = \<lparr>voxels = vs, dim = (2, 2, 2), len = Finite (1 / 2), bbox = unit_box\<rparr>"

text \<open>That grid as classified for the second example surface.\<close>

abbreviation far_corner_grid :: VoxelGrid where
  "far_corner_grid \<equiv>
     grid_2x2x2 [VOXEL_UNKNOWN, VOXEL_UNKNOWN, VOXEL_UNKNOWN, VOXEL_UNKNOWN,
                 VOXEL_UNKNOWN, VOXEL_UNKNOWN, VOXEL_UNKNOWN, VOXEL_BOUNDARY]"


text \<open>Example corner function: the corners of unit voxels, the offset's bits choosing
  the side on each axis; and an example implicit function, a plane.\<close>

definition unit_corner :: "AABB \<Rightarrow> double \<Rightarrow> vec3u \<Rightarrow> nat \<Rightarrow> vec3d" where
  "unit_corner b l ijk off =
     (case ijk of (i, j, k) \<Rightarrow>
        (real (i + off mod 2), real (j + (off div 2) mod 2), real (k + off div 4)))"

definition diagonal_plane :: "vec3d \<Rightarrow> real" where
  "diagonal_plane p = (case p of (x, y, z) \<Rightarrow> x + y + z - 1)"

section \<open>Hexahedra as general polyhedra (meshes/hexmesh.h)\<close>

text \<open>
  Vertex ids are natural numbers. \<open>std::vector::at\<close> throws \<open>std::out_of_range\<close>
  when the index is not below the size; that is the error \<open>OutOfRange\<close>. The
  \<open>std::map\<close> from sorted faces to face ids is an association list: a key is added
  only when \<open>find\<close> did not find it, so its length is the map's size.
\<close>

datatype hex_error = OutOfRange

definition HEXA_FACES :: "nat list list" where
  "HEXA_FACES =
     [[0, 3, 2, 1], [1, 2, 6, 5], [4, 5, 6, 7], [3, 0, 4, 7], [0, 1, 5, 4], [2, 3, 7, 6]]"

definition vector_at :: "nat list \<Rightarrow> nat \<Rightarrow> hex_error + nat" where
  "vector_at v n = (if n < length v then Inr (v ! n) else Inl OutOfRange)"

text \<open>The face \<open>f\<close> of lines 268-274, for the row \<open>HEXA_FACES[i]\<close>.\<close>

definition hexa_face :: "nat list \<Rightarrow> nat \<Rightarrow> nat list \<Rightarrow> hex_error + nat list" where
  "hexa_face hexa base row =
     (case vector_at hexa (base + row ! 0) of Inl e \<Rightarrow> Inl e | Inr a \<Rightarrow>
      case vector_at hexa (base + row ! 1) of Inl e \<Rightarrow> Inl e | Inr b \<Rightarrow>
      case vector_at hexa (base + row ! 2) of Inl e \<Rightarrow> Inl e | Inr c \<Rightarrow>
      case vector_at hexa (base + row ! 3) of Inl e \<Rightarrow> Inl e | Inr d \<Rightarrow>
      Inr [a, b, c, d])"

type_synonym face_map = "(nat list \<times> nat) list"

text \<open>Lines 275-291: look the sorted face up, and record its id and winding.\<close>

definition add_face ::
  "nat list \<Rightarrow> nat list list \<times> face_map \<times> nat list \<times> bool list \<Rightarrow>
     nat list list \<times> face_map \<times> nat list \<times> bool list" where
  "add_face f s =
     (case s of (faces, f_map, p_faces, p_winding) \<Rightarrow>
        let sorted_f = sort f in
        case map_of f_map sorted_f of
          None \<Rightarrow>
            let fresh_id = length f_map in
            (faces @ [f], f_map @ [(sorted_f, fresh_id)], p_faces @ [fresh_id],
             p_winding @ [True])
        | Some fid \<Rightarrow> (faces, f_map, p_faces @ [fid], p_winding @ [False]))"

text \<open>The loop over the six faces of one hexahedron (lines 265-292).\<close>

fun face_loop ::
  "nat list \<Rightarrow> nat \<Rightarrow> nat list list \<Rightarrow> nat list list \<times> face_map \<times> nat list \<times> bool list \<Rightarrow>
     hex_error + (nat list list \<times> face_map \<times> nat list \<times> bool list)" where
  "face_loop hexa base [] s = Inr s"
| "face_loop hexa base (row # rows) s =
     (case hexa_face hexa base row of
        Inl e \<Rightarrow> Inl e
      | Inr f \<Rightarrow> face_loop hexa base rows (add_face f s))"

text \<open>The loop over the hexahedra (lines 260-296).\<close>

fun hexa_loop ::
  "nat list \<Rightarrow> nat list \<Rightarrow> nat list list \<times> face_map \<times> nat list list \<times> bool list list \<Rightarrow>
     hex_error + (nat list list \<times> face_map \<times> nat list list \<times> bool list list)" where
  "hexa_loop hexa [] s = Inr s"
| "hexa_loop hexa (hid # hids) s =
     (case s of (faces, f_map, polys, polys_face_winding) \<Rightarrow>
        (case face_loop hexa (hid * 8) HEXA_FACES (faces, f_map, [], []) of
           Inl e \<Rightarrow> Inl e
         | Inr (faces', f_map', p_faces, p_winding) \<Rightarrow>
             hexa_loop hexa hids
               (faces', f_map', polys @ [p_faces], polys_face_winding @ [p_winding])))"

definition from_hexahedra_to_general_polyhedra ::
  "nat list \<Rightarrow> hex_error + (nat list list \<times> nat list list \<times> bool list list)" where
  "from_hexahedra_to_general_polyhedra hexa =
     (let n_hexa = length hexa div 8 in
      case hexa_loop hexa [0..<n_hexa] ([], [], [], []) of
        Inl e \<Rightarrow> Inl e
      | Inr (faces, f_map, polys, polys_face_winding) \<Rightarrow>
          Inr (faces, polys, polys_face_winding))"

text \<open>Face \<open>i\<close> of hexahedron \<open>hid\<close>, and the sorted tuple that identifies it.\<close>

definition slot_face :: "nat list \<Rightarrow> nat \<Rightarrow> nat \<Rightarrow> nat list" where
  "slot_face hexa hid i = map (\<lambda>c. hexa ! (hid * 8 + c)) (HEXA_FACES ! i)"

definition slot_key :: "nat list \<Rightarrow> nat \<Rightarrow> nat \<Rightarrow> nat list" where
  "slot_key hexa hid i = sort (slot_face hexa hid i)"

text \<open>The map holds the sorted faces of the face list, numbered in order.\<close>

definition face_map_inv :: "nat list list \<Rightarrow> face_map \<Rightarrow> bool" where
  "face_map_inv faces f_map \<longleftrightarrow>
     f_map = zip (map sort faces) [0..<length faces] \<and> distinct (map sort faces)"

text \<open>The vertex ids at the offsets of a row, from \<open>base\<close>.\<close>

definition row_face :: "nat list \<Rightarrow> nat \<Rightarrow> nat list \<Rightarrow> nat list" where
  "row_face hexa base row = map (\<lambda>c. hexa ! (base + c)) row"

text \<open>The sorted tuples of the six faces of a hexahedron.\<close>

definition hexa_keys :: "nat list \<Rightarrow> nat \<Rightarrow> nat list set" where
  "hexa_keys hexa hid = slot_key hexa hid ` {..<6}"

text \<open>What the loop over the hexahedra \<open>hids\<close> establishes, from a face list
  \<open>faces\<close>: the face list grows at its end and holds the new sorted tuples; each
  hexahedron gets six face ids and six winding flags; an id points at a face with the
  slot's sorted tuple, and a flag is true exactly when the tuple was not seen before.\<close>

definition hexa_post ::
  "nat list \<Rightarrow> nat list \<Rightarrow> nat list list \<Rightarrow> nat list list \<Rightarrow> nat list list \<Rightarrow> bool list list \<Rightarrow> bool" where
  "hexa_post hexa hids faces faces' P W \<longleftrightarrow>
     (\<exists>new. faces' = faces @ new) \<and>
     set (map sort faces') = set (map sort faces) \<union> (\<Union>h \<in> set hids. hexa_keys hexa h) \<and>
     length P = length hids \<and> length W = length hids \<and>
     (\<forall>n < length hids. length (P ! n) = 6 \<and> length (W ! n) = 6 \<and>
        (\<forall>i < 6. P ! n ! i < length faces' \<and>
           sort (faces' ! (P ! n ! i)) = slot_key hexa (hids ! n) i \<and>
           (W ! n ! i \<longleftrightarrow>
              slot_key hexa (hids ! n) i \<notin>
                set (map sort faces) \<union> (\<Union>h \<in> set (take n hids). hexa_keys hexa h) \<union>
                slot_key hexa (hids ! n) ` {..<i})))"

text \<open>No earlier hexahedron has a face with the sorted tuple of face \<open>i\<close> of
  hexahedron \<open>hid\<close>: the hexahedron is the first, in input order, to introduce it.\<close>

definition first_to_introduce :: "nat list \<Rightarrow> nat \<Rightarrow> nat \<Rightarrow> bool" where
  "first_to_introduce hexa hid i \<longleftrightarrow>
     (\<forall>hid' < hid. \<forall>i' < 6. slot_key hexa hid' i' \<noteq> slot_key hexa hid i)"

text \<open>Example: two hexahedra that share the face 4-5-6-7.\<close>

definition two_hexahedra :: "nat list" where
  "two_hexahedra = [0, 1, 2, 3, 4, 5, 6, 7, 4, 5, 6, 7, 8, 9, 10, 11]"

section \<open>Properties of the voxel grid\<close>

subsection \<open>Properties of the index mapping\<close>

lemma serialize_bound:
  assumes "i < dx" "j < dy" "k < dz"
  shows "serialize_3D_index i j k dy dz < dx * dy * dz"
proof -
  have "j * dz + k < dy * dz"
  proof -
    have "j * dz + k < j * dz + dz" using assms(3) by simp
    also have "\<dots> = Suc j * dz" by simp
    also have "\<dots> \<le> dy * dz" using assms(2) by (intro mult_le_mono1) simp
    finally show ?thesis .
  qed
  then have "i * (dy * dz) + (j * dz + k) < i * (dy * dz) + dy * dz" by simp
  also have "\<dots> = Suc i * (dy * dz)" by simp
  also have "\<dots> \<le> dx * (dy * dz)" using assms(1) by (intro mult_le_mono1) simp
  finally show ?thesis by (simp add: serialize_3D_index_def add.assoc mult.assoc)
qed

lemma deserialize_serialize:
  assumes "j < dy" "k < dz"
  shows "deserialize_3D_index (serialize_3D_index i j k dy dz) dy dz = (i, j, k)"
proof -
  have jk: "j * dz + k < dy * dz"
  proof -
    have "j * dz + k < Suc j * dz" using assms(2) by simp
    also have "\<dots> \<le> dy * dz" using assms(1) by (intro mult_le_mono1) simp
    finally show ?thesis .
  qed
  have pos: "0 < dz" using assms(2) by simp
  have pos2: "0 < dy * dz" using jk by (cases "dy * dz") simp_all
  have "(i * (dy * dz) + (j * dz + k)) div (dy * dz) = i + (j * dz + k) div (dy * dz)"
    using pos2 div_mult_self3 [of "dy * dz" i "j * dz + k"] by simp
  then have a: "(i * (dy * dz) + j * dz + k) div (dy * dz) = i"
    using jk by (simp add: add.assoc)
  have "i * (dy * dz) + j * dz + k = (i * dy + j) * dz + k"
    by (simp add: add_mult_distrib mult.assoc)
  then have "(i * (dy * dz) + j * dz + k) div dz = (i * dy + j) + k div dz"
    using pos div_mult_self3 [of dz "i * dy + j" k] by simp
  then have b: "(i * (dy * dz) + j * dz + k) div dz mod dy = j"
    using assms by simp
  have "i * (dy * dz) + j * dz + k = (i * dy + j) * dz + k"
    by (simp add: add_mult_distrib mult.assoc)
  then have "(i * (dy * dz) + j * dz + k) mod dz = k mod dz"
    by simp
  then have c: "(i * (dy * dz) + j * dz + k) mod dz = k"
    using assms(2) by simp
  show ?thesis
    by (simp add: serialize_3D_index_def deserialize_3D_index_def a b c)
qed

lemma deserialize_bounds:
  assumes "idx < dx * dy * dz"
  shows "fst (deserialize_3D_index idx dy dz) < dx"
    and "fst (snd (deserialize_3D_index idx dy dz)) < dy"
    and "snd (snd (deserialize_3D_index idx dy dz)) < dz"
proof -
  have pos: "0 < dy" "0 < dz" using assms by (auto intro: Nat.gr0I)
  show "fst (deserialize_3D_index idx dy dz) < dx"
    using assms pos
    by (simp add: deserialize_3D_index_def less_mult_imp_div_less mult.assoc)
  show "fst (snd (deserialize_3D_index idx dy dz)) < dy"
    using pos by (simp add: deserialize_3D_index_def)
  show "snd (snd (deserialize_3D_index idx dy dz)) < dz"
    using pos by (simp add: deserialize_3D_index_def)
qed

lemma serialize_deserialize:
  "(case deserialize_3D_index idx dy dz of (i, j, k) \<Rightarrow> serialize_3D_index i j k dy dz) = idx"
proof -
  have e: "idx div (dy * dz) = idx div dz div dy"
    using div_mult2_eq [of idx dz dy] by (simp add: mult.commute)
  have "idx div dz div dy * (dy * dz) + (idx div dz mod dy) * dz + idx mod dz
        = (idx div dz div dy * dy + idx div dz mod dy) * dz + idx mod dz"
    by (simp only: add_mult_distrib mult.assoc)
  also have "\<dots> = idx div dz * dz + idx mod dz" by simp
  also have "\<dots> = idx" by simp
  finally show ?thesis
    by (simp add: serialize_3D_index_def deserialize_3D_index_def e)
qed

text \<open>
  Claim C5. The index mapping \<open>index = i\<cdot>(dim_y\<cdot>dim_z) + j\<cdot>dim_z + k\<close> is a bijection
  between the triples with \<open>i < dim_x\<close>, \<open>j < dim_y\<close>, \<open>k < dim_z\<close> and the indices
  below \<open>dim_x\<cdot>dim_y\<cdot>dim_z\<close>: encoding a valid triple gives an index in range
  that decodes to the triple, and decoding an index in range gives a valid triple that
  encodes to the index.
\<close>

theorem index_mapping_bijection:
  "(\<forall>i j k. i < dx \<and> j < dy \<and> k < dz \<longrightarrow>
      serialize_3D_index i j k dy dz < dx * dy * dz \<and>
      deserialize_3D_index (serialize_3D_index i j k dy dz) dy dz = (i, j, k)) \<and>
   (\<forall>idx < dx * dy * dz.
      (case deserialize_3D_index idx dy dz of (i, j, k) \<Rightarrow>
         i < dx \<and> j < dy \<and> k < dz \<and> serialize_3D_index i j k dy dz = idx))"
proof (intro conjI allI impI)
  fix i j k assume "i < dx \<and> j < dy \<and> k < dz"
  then show "serialize_3D_index i j k dy dz < dx * dy * dz"
    by (simp add: serialize_bound)
next
  fix i j k assume "i < dx \<and> j < dy \<and> k < dz"
  then show "deserialize_3D_index (serialize_3D_index i j k dy dz) dy dz = (i, j, k)"
    by (simp add: deserialize_serialize)
next
  fix idx assume lt: "idx < dx * dy * dz"
  obtain i j k where d: "deserialize_3D_index idx dy dz = (i, j, k)"
    by (cases "deserialize_3D_index idx dy dz") auto
  have "i < dx" "j < dy" "k < dz"
    using deserialize_bounds [OF lt] d by simp_all
  moreover have "serialize_3D_index i j k dy dz = idx"
    using serialize_deserialize [where idx = idx and dy = dy and dz = dz] d by simp
  ultimately show "case deserialize_3D_index idx dy dz of (i, j, k) \<Rightarrow>
      i < dx \<and> j < dy \<and> k < dz \<and> serialize_3D_index i j k dy dz = idx"
    using d by simp
qed

theorem index_mapping_bijection_witness:
  "serialize_3D_index 1 2 3 3 4 = 23 \<and> 23 < (2::nat) * 3 * 4 \<and>
   deserialize_3D_index 23 3 4 = (1, 2, 3) \<and>
   deserialize_3D_index (serialize_3D_index 1 2 3 3 4) 3 4 = (1, 2, 3)"
  using index_mapping_bijection [of 2 3 4]
  by (simp add: serialize_3D_index_def deserialize_3D_index_def)

subsection \<open>Grid geometry\<close>

lemma grid_geometry_wf:
  "grid_geometry box R = Inr g \<Longrightarrow> wf_grid g \<and> bbox g = box \<and> voxels g = replicate (grid_size g) VOXEL_UNKNOWN"
  by (auto simp: grid_geometry_def wf_grid_def grid_size_def Let_def split: sum.splits)



lemma grid_geometry_zero_resolution:
  assumes "0 < max_entry (delta box)"
  shows "grid_geometry box 0 = Inr \<lparr>voxels = [], dim = (0, 0, 0), len = PlusInf, bbox = box\<rparr>"
  using assms by (simp add: grid_geometry_def double_div_def)

lemma grid_geometry_zero_extent:
  assumes "max_entry (delta box) = 0" "delta_x box = 0"
  shows "grid_geometry box R = Inl BadConversion"
  using assms by (simp add: grid_geometry_def double_div_def)

subsection \<open>The classification pass\<close>

lemma classify_voxel_frame:
  "classify_voxel hit index (g, s) = (g', s') \<Longrightarrow>
     dim g' = dim g \<and> len g' = len g \<and> bbox g' = bbox g \<and> length (voxels g') = length (voxels g)"
  by (auto simp: classify_voxel_def Let_def split: prod.splits)

lemma classify_voxel_eq:
  "classify_voxel hit index (g, s) =
     (g\<lparr>voxels := (voxels g)[index := mesh_tag hit g index]\<rparr>,
      if seed_candidate hit g index then int index else s)"
  by (auto simp: classify_voxel_def mesh_tag_def seed_candidate_def on_shell_def Let_def split: prod.splits)

lemma mesh_tag_cong:
  "dim g' = dim g \<Longrightarrow> len g' = len g \<Longrightarrow> bbox g' = bbox g \<Longrightarrow> mesh_tag hit g' = mesh_tag hit g"
  by (auto simp: mesh_tag_def voxel_ijk_def fun_eq_iff)

lemma seed_candidate_cong:
  "dim g' = dim g \<Longrightarrow> len g' = len g \<Longrightarrow> bbox g' = bbox g \<Longrightarrow> seed_candidate hit g' = seed_candidate hit g"
  by (auto simp: seed_candidate_def voxel_ijk_def fun_eq_iff)

lemma classification_pass_result:
  assumes "classification_pass hit order g = (g1, seed)"
  shows "dim g1 = dim g \<and> len g1 = len g \<and> bbox g1 = bbox g \<and>
         length (voxels g1) = length (voxels g) \<and>
         (\<forall>i < length (voxels g). voxels g1 ! i =
            (if i \<in> set order then mesh_tag hit g i else voxels g ! i)) \<and>
         (if \<exists>i \<in> set order. seed_candidate hit g i
          then \<exists>i \<in> set order. seed_candidate hit g i \<and> seed = int i
          else seed = - 1)"
  using assms unfolding classification_pass_def
proof (induction order arbitrary: g1 seed rule: rev_induct)
  case Nil
  then show ?case by simp
next
  case (snoc x xs)
  obtain g2 s2 where f: "fold (classify_voxel hit) xs (g, - 1) = (g2, s2)"
    by (cases "fold (classify_voxel hit) xs (g, - 1)") auto
  note ih = snoc.IH [OF f]
  have c1: "mesh_tag hit g2 = mesh_tag hit g" using ih by (intro mesh_tag_cong) auto
  have c2: "seed_candidate hit g2 = seed_candidate hit g" using ih by (intro seed_candidate_cong) auto
  from snoc.prems f have g1: "g1 = g2\<lparr>voxels := (voxels g2)[x := mesh_tag hit g x]\<rparr>"
    and sd: "seed = (if seed_candidate hit g x then int x else s2)"
    by (simp_all add: classify_voxel_eq c1 c2)
  have A: "dim g1 = dim g \<and> len g1 = len g \<and> bbox g1 = bbox g \<and>
         length (voxels g1) = length (voxels g)" using ih g1 by simp
  have B: "\<forall>i < length (voxels g). voxels g1 ! i =
            (if i \<in> set (xs @ [x]) then mesh_tag hit g i else voxels g ! i)"
  proof (intro allI impI)
    fix i assume i: "i < length (voxels g)"
    then have i2: "i < length (voxels g2)" using ih by simp
    show "voxels g1 ! i = (if i \<in> set (xs @ [x]) then mesh_tag hit g i else voxels g ! i)"
    proof (cases "i = x")
      case True
      then show ?thesis using g1 i2 by simp
    next
      case False
      then show ?thesis using g1 i2 i ih by simp
    qed
  qed
  have C: "(if \<exists>i \<in> set (xs @ [x]). seed_candidate hit g i
          then \<exists>i \<in> set (xs @ [x]). seed_candidate hit g i \<and> seed = int i
          else seed = - 1)"
  proof (cases "seed_candidate hit g x")
    case True
    then show ?thesis using sd by auto
  next
    case False
    then show ?thesis using sd ih by (auto split: if_splits)
  qed
  from A B C show ?case by blast
qed

lemma voxel_n6_iff:
  assumes "a < grid_size g"
  shows "b \<in> set (voxel_n6 g (voxel_ijk g a)) \<longleftrightarrow>
         b < grid_size g \<and> face_adjacent (voxel_ijk g a) (voxel_ijk g b)"
proof -
  obtain d0 d1 d2 where d: "dim g = (d0, d1, d2)" by (cases "dim g") auto
  obtain i j k where a: "deserialize_3D_index a d1 d2 = (i, j, k)"
    by (cases "deserialize_3D_index a d1 d2") auto
  have lt: "a < d0 * d1 * d2" using assms d by (simp add: grid_size_def)
  have ijk: "i < d0" "j < d1" "k < d2" using deserialize_bounds [OF lt] a by simp_all
  show ?thesis
  proof
    assume "b \<in> set (voxel_n6 g (voxel_ijk g a))"
    then consider
        "0 < i" "b = serialize_3D_index (i - 1) j k d1 d2"
      | "i + 1 < d0" "b = serialize_3D_index (i + 1) j k d1 d2"
      | "0 < j" "b = serialize_3D_index i (j - 1) k d1 d2"
      | "j + 1 < d1" "b = serialize_3D_index i (j + 1) k d1 d2"
      | "0 < k" "b = serialize_3D_index i j (k - 1) d1 d2"
      | "k + 1 < d2" "b = serialize_3D_index i j (k + 1) d1 d2"
      by (auto simp: voxel_n6_def voxel_ijk_def d a split: if_splits)
    then obtain i' j' k' where b: "b = serialize_3D_index i' j' k' d1 d2"
      and b': "i' < d0" "j' < d1" "k' < d2" and adj: "face_adjacent (i, j, k) (i', j', k')"
    proof cases
      case 1 then show ?thesis using ijk that [of "i - 1" j k] by (auto simp: face_adjacent_def)
    next
      case 2 then show ?thesis using ijk that [of "i + 1" j k] by (auto simp: face_adjacent_def)
    next
      case 3 then show ?thesis using ijk that [of i "j - 1" k] by (auto simp: face_adjacent_def)
    next
      case 4 then show ?thesis using ijk that [of i "j + 1" k] by (auto simp: face_adjacent_def)
    next
      case 5 then show ?thesis using ijk that [of i j "k - 1"] by (auto simp: face_adjacent_def)
    next
      case 6 then show ?thesis using ijk that [of i j "k + 1"] by (auto simp: face_adjacent_def)
    qed
    have "b < grid_size g" using serialize_bound [OF b'] b d by (simp add: grid_size_def)
    moreover have "voxel_ijk g b = (i', j', k')"
      using deserialize_serialize [OF b'(2,3)] b d by (simp add: voxel_ijk_def)
    ultimately show "b < grid_size g \<and> face_adjacent (voxel_ijk g a) (voxel_ijk g b)"
      using adj a d by (simp add: voxel_ijk_def)
  next
    assume r: "b < grid_size g \<and> face_adjacent (voxel_ijk g a) (voxel_ijk g b)"
    obtain i' j' k' where b: "deserialize_3D_index b d1 d2 = (i', j', k')"
      by (cases "deserialize_3D_index b d1 d2") auto
    have ltb: "b < d0 * d1 * d2" using r d by (simp add: grid_size_def)
    have b': "i' < d0" "j' < d1" "k' < d2" using deserialize_bounds [OF ltb] b by simp_all
    have bs: "b = serialize_3D_index i' j' k' d1 d2"
      using serialize_deserialize [where idx = b and dy = d1 and dz = d2] b by simp
    have adj: "face_adjacent (i, j, k) (i', j', k')"
      using r a b d by (simp add: voxel_ijk_def)
    then consider "i = Suc i'" "j = j'" "k = k'" | "i' = Suc i" "j = j'" "k = k'"
      | "i = i'" "j = Suc j'" "k = k'" | "i = i'" "j' = Suc j" "k = k'"
      | "i = i'" "j = j'" "k = Suc k'" | "i = i'" "j = j'" "k' = Suc k"
      by (auto simp: face_adjacent_def)
    then show "b \<in> set (voxel_n6 g (voxel_ijk g a))"
      using b' bs by cases (simp_all add: voxel_n6_def voxel_ijk_def d a)
  qed
qed

lemma voxel_n6_in_range:
  "a < grid_size g \<Longrightarrow> b \<in> set (voxel_n6 g (voxel_ijk g a)) \<Longrightarrow> b < grid_size g"
  by (simp add: voxel_n6_iff)

subsection \<open>The neighbour loop\<close>

lemma visit_nbrs_result:
  assumes "\<forall>n \<in> set n6. n < length (voxels g)"
  shows "\<exists>g' new. visit_nbrs n6 g q = Inr (g', q @ new) \<and>
           dim g' = dim g \<and> len g' = len g \<and> bbox g' = bbox g \<and>
           length (voxels g') = length (voxels g) \<and>
           distinct new \<and> set new = {n \<in> set n6. voxels g ! n = VOXEL_UNKNOWN} \<and>
           (\<forall>i < length (voxels g). voxels g' ! i =
              (if i \<in> set new then VOXEL_OUTSIDE else voxels g ! i))"
  using assms
proof (induction n6 arbitrary: g q)
  case Nil
  then show ?case by simp
next
  case (Cons nbr n6)
  have nbr: "nbr < length (voxels g)" using Cons.prems by simp
  show ?case
  proof (cases "voxels g ! nbr = VOXEL_UNKNOWN")
    case True
    let ?g = "g\<lparr>voxels := (voxels g)[nbr := VOXEL_OUTSIDE]\<rparr>"
    have "\<forall>n \<in> set n6. n < length (voxels ?g)" using Cons.prems by simp
    from Cons.IH [OF this, of "q @ [nbr]"] obtain g' new where
      r: "visit_nbrs n6 ?g (q @ [nbr]) = Inr (g', (q @ [nbr]) @ new)"
      and fr: "dim g' = dim g" "len g' = len g" "bbox g' = bbox g"
        "length (voxels g') = length (voxels g)"
      and dn: "distinct new"
      and sn: "set new = {n \<in> set n6. voxels ?g ! n = VOXEL_UNKNOWN}"
      and vx: "\<forall>i < length (voxels g). voxels g' ! i =
              (if i \<in> set new then VOXEL_OUTSIDE else voxels ?g ! i)"
      by auto
    have notin: "nbr \<notin> set new" using sn nbr by simp
    have sn': "set (nbr # new) = {n \<in> set (nbr # n6). voxels g ! n = VOXEL_UNKNOWN}"
    proof -
      have "\<And>n. n \<in> set n6 \<Longrightarrow> (voxels ?g ! n = VOXEL_UNKNOWN) = (n \<noteq> nbr \<and> voxels g ! n = VOXEL_UNKNOWN)"
        using Cons.prems by (auto simp: nth_list_update)
      then show ?thesis using sn True by auto
    qed
    have vx': "\<forall>i < length (voxels g). voxels g' ! i =
              (if i \<in> set (nbr # new) then VOXEL_OUTSIDE else voxels g ! i)"
      using vx by (auto simp: nth_list_update)
    have "visit_nbrs (nbr # n6) g q = Inr (g', q @ (nbr # new))"
      using r True nbr by simp
    then show ?thesis using fr dn notin sn' vx' by (intro exI [of _ g'] exI [of _ "nbr # new"]) simp
  next
    case False
    have "\<forall>n \<in> set n6. n < length (voxels g)" using Cons.prems by simp
    from Cons.IH [OF this, of q] obtain g' new where
      r: "visit_nbrs n6 g q = Inr (g', q @ new)"
      and fr: "dim g' = dim g" "len g' = len g" "bbox g' = bbox g"
        "length (voxels g') = length (voxels g)"
      and dn: "distinct new"
      and sn: "set new = {n \<in> set n6. voxels g ! n = VOXEL_UNKNOWN}"
      and vx: "\<forall>i < length (voxels g). voxels g' ! i =
              (if i \<in> set new then VOXEL_OUTSIDE else voxels g ! i)"
      by auto
    have "visit_nbrs (nbr # n6) g q = Inr (g', q @ new)" using r False nbr by simp
    moreover have "set new = {n \<in> set (nbr # n6). voxels g ! n = VOXEL_UNKNOWN}"
      using sn False by auto
    ultimately show ?thesis using fr dn vx by (intro exI [of _ g'] exI [of _ new]) simp
  qed
qed

text \<open>One iteration from a state in which the popped voxel is in range and OUTSIDE.\<close>

lemma flood_body_result:
  assumes "wf_grid g" "index < grid_size g" "voxels g ! index = VOXEL_OUTSIDE"
  shows "\<exists>g' new. flood_body g index q = Inr (g', q @ new) \<and>
           dim g' = dim g \<and> len g' = len g \<and> bbox g' = bbox g \<and> wf_grid g' \<and>
           distinct new \<and>
           set new = {n. n < grid_size g \<and> face_adjacent (voxel_ijk g index) (voxel_ijk g n) \<and>
                         voxels g ! n = VOXEL_UNKNOWN} \<and>
           (\<forall>i < grid_size g. voxels g' ! i =
              (if i \<in> set new then VOXEL_OUTSIDE else voxels g ! i))"
proof -
  have len: "length (voxels g) = grid_size g" using assms(1) by (simp add: wf_grid_def)
  have "\<forall>n \<in> set (voxel_n6 g (voxel_ijk g index)). n < length (voxels g)"
    using voxel_n6_in_range [OF assms(2)] len by simp
  from visit_nbrs_result [OF this, of q] obtain g' new where
      r: "visit_nbrs (voxel_n6 g (voxel_ijk g index)) g q = Inr (g', q @ new)"
      and fr: "dim g' = dim g" "len g' = len g" "bbox g' = bbox g"
        "length (voxels g') = length (voxels g)"
      and dn: "distinct new"
      and sn: "set new = {n \<in> set (voxel_n6 g (voxel_ijk g index)). voxels g ! n = VOXEL_UNKNOWN}"
      and vx: "\<forall>i < length (voxels g). voxels g' ! i =
              (if i \<in> set new then VOXEL_OUTSIDE else voxels g ! i)"
    by auto
  have "flood_body g index q = Inr (g', q @ new)"
    using r assms len by (simp add: flood_body_def)
  moreover have "wf_grid g'" using fr len by (simp add: wf_grid_def grid_size_def)
  moreover have "set new = {n. n < grid_size g \<and> face_adjacent (voxel_ijk g index) (voxel_ijk g n) \<and>
                         voxels g ! n = VOXEL_UNKNOWN}"
    using sn voxel_n6_iff [OF assms(2)] by auto
  ultimately show ?thesis using fr dn vx len
    by (intro exI [of _ g'] exI [of _ new]) simp
qed

lemma grid_size_cong: "dim g = dim g1 \<Longrightarrow> grid_size g = grid_size g1"
  by (simp add: grid_size_def)

lemma voxel_ijk_cong: "dim g = dim g1 \<Longrightarrow> voxel_ijk g = voxel_ijk g1"
  by (simp add: voxel_ijk_def fun_eq_iff)

lemma flood_inv_initial:
  assumes "wf_grid g1" "classified g1" "seed < grid_size g1" "voxels g1 ! seed = VOXEL_UNKNOWN"
  shows "flood_inv g1 seed (g1\<lparr>voxels := (voxels g1)[seed := VOXEL_OUTSIDE]\<rparr>) [seed]"
proof -
  let ?g = "g1\<lparr>voxels := (voxels g1)[seed := VOXEL_OUTSIDE]\<rparr>"
  have len: "length (voxels g1) = grid_size g1" using assms(1) by (simp add: wf_grid_def)
  have v: "\<And>i. i < grid_size g1 \<Longrightarrow>
      voxels ?g ! i = (if i = seed then VOXEL_OUTSIDE else voxels g1 ! i)"
    using len by (simp add: nth_list_update)
  have o: "\<And>i. i < grid_size g1 \<Longrightarrow> voxels ?g ! i = VOXEL_OUTSIDE \<Longrightarrow> i = seed"
    using v assms(2) by (fastforce simp: classified_def split: if_splits)
  have "wf_grid ?g" using len by (simp add: wf_grid_def grid_size_def)
  moreover have "\<forall>i < grid_size g1. voxels ?g ! i = voxels g1 ! i \<or>
        (voxels g1 ! i = VOXEL_UNKNOWN \<and> voxels ?g ! i = VOXEL_OUTSIDE)"
    using v assms(4) by simp
  moreover have "\<forall>i < grid_size g1. voxels ?g ! i = VOXEL_OUTSIDE \<longrightarrow> (free_step g1)\<^sup>*\<^sup>* seed i"
    using o by blast
  moreover have "\<forall>i < grid_size g1. voxels ?g ! i = VOXEL_OUTSIDE \<and> i \<notin> set [seed] \<longrightarrow>
        (\<forall>n. free_step g1 i n \<longrightarrow> voxels ?g ! n = VOXEL_OUTSIDE)"
    using o by fastforce
  moreover have "voxels ?g ! seed = VOXEL_OUTSIDE" using v assms(3) by simp
  ultimately show ?thesis using assms(3) by (simp add: flood_inv_def)
qed

lemma flood_inv_step:
  assumes inv: "flood_inv g1 seed g (index # q)" and cl: "classified g1"
  shows "\<exists>g' new. flood_body g index q = Inr (g', q @ new) \<and> flood_inv g1 seed g' (q @ new) \<and>
           distinct new \<and>
           (\<forall>n \<in> set new. n < grid_size g1 \<and> voxels g ! n = VOXEL_UNKNOWN) \<and>
           (\<forall>i < grid_size g1. voxels g' ! i =
              (if i \<in> set new then VOXEL_OUTSIDE else voxels g ! i))"
proof -
  have wf: "wf_grid g" and dm: "dim g = dim g1" and ln: "len g = len g1" and bb: "bbox g = bbox g1"
    and fr: "\<forall>i < grid_size g1. voxels g ! i = voxels g1 ! i \<or>
        (voxels g1 ! i = VOXEL_UNKNOWN \<and> voxels g ! i = VOXEL_OUTSIDE)"
    and dq: "distinct (index # q)"
    and qo: "\<forall>i \<in> set (index # q). i < grid_size g1 \<and> voxels g ! i = VOXEL_OUTSIDE"
    and rc: "\<forall>i < grid_size g1. voxels g ! i = VOXEL_OUTSIDE \<longrightarrow> (free_step g1)\<^sup>*\<^sup>* seed i"
    and cls: "\<forall>i < grid_size g1. voxels g ! i = VOXEL_OUTSIDE \<and> i \<notin> set (index # q) \<longrightarrow>
        (\<forall>n. free_step g1 i n \<longrightarrow> voxels g ! n = VOXEL_OUTSIDE)"
    and sd: "seed < grid_size g1" "voxels g ! seed = VOXEL_OUTSIDE"
    using inv unfolding flood_inv_def by blast+
  have gs: "grid_size g = grid_size g1" using dm by (rule grid_size_cong)
  have ijk: "voxel_ijk g = voxel_ijk g1" using dm by (rule voxel_ijk_cong)
  have idx: "index < grid_size g" "voxels g ! index = VOXEL_OUTSIDE" using qo gs by simp_all
  from flood_body_result [OF wf idx, of q] obtain g' new where
    r: "flood_body g index q = Inr (g', q @ new)"
    and fr': "dim g' = dim g" "len g' = len g" "bbox g' = bbox g" "wf_grid g'"
    and dn: "distinct new"
    and sn: "set new = {n. n < grid_size g \<and> face_adjacent (voxel_ijk g index) (voxel_ijk g n) \<and>
                         voxels g ! n = VOXEL_UNKNOWN}"
    and vx: "\<forall>i < grid_size g. voxels g' ! i =
              (if i \<in> set new then VOXEL_OUTSIDE else voxels g ! i)"
    by blast
  have new_u: "\<And>n. n \<in> set new \<Longrightarrow> n < grid_size g1 \<and> voxels g ! n = VOXEL_UNKNOWN \<and>
      voxels g1 ! n = VOXEL_UNKNOWN \<and> face_adjacent (voxel_ijk g1 index) (voxel_ijk g1 n)"
    using sn fr gs ijk by auto
  have keep: "\<And>i. i < grid_size g1 \<Longrightarrow> voxels g ! i = VOXEL_OUTSIDE \<Longrightarrow> voxels g' ! i = VOXEL_OUTSIDE"
    using vx gs by simp
  have I2: "\<forall>i < grid_size g1. voxels g' ! i = voxels g1 ! i \<or>
        (voxels g1 ! i = VOXEL_UNKNOWN \<and> voxels g' ! i = VOXEL_OUTSIDE)"
  proof (intro allI impI)
    fix i assume i: "i < grid_size g1"
    show "voxels g' ! i = voxels g1 ! i \<or>
        (voxels g1 ! i = VOXEL_UNKNOWN \<and> voxels g' ! i = VOXEL_OUTSIDE)"
    proof (cases "i \<in> set new")
      case True
      then show ?thesis using new_u [OF True] vx i gs by simp
    next
      case False
      then show ?thesis using fr vx i gs by simp
    qed
  qed
  have I3a: "distinct (q @ new)"
    using dq dn qo new_u by fastforce
  have I3b: "\<forall>i \<in> set (q @ new). i < grid_size g1 \<and> voxels g' ! i = VOXEL_OUTSIDE"
  proof
    fix i assume "i \<in> set (q @ new)"
    then consider "i \<in> set q" | "i \<in> set new" by auto
    then show "i < grid_size g1 \<and> voxels g' ! i = VOXEL_OUTSIDE"
    proof cases
      case 1 then show ?thesis using qo keep by simp
    next
      case 2 then show ?thesis using new_u [OF 2] vx gs by simp
    qed
  qed
  have I4: "\<forall>i < grid_size g1. voxels g' ! i = VOXEL_OUTSIDE \<longrightarrow> (free_step g1)\<^sup>*\<^sup>* seed i"
  proof (intro allI impI)
    fix i assume i: "i < grid_size g1" and o: "voxels g' ! i = VOXEL_OUTSIDE"
    show "(free_step g1)\<^sup>*\<^sup>* seed i"
    proof (cases "i \<in> set new")
      case True
      have "free_step g1 index i"
        using new_u [OF True] idx gs by (simp add: free_step_def)
      moreover have "(free_step g1)\<^sup>*\<^sup>* seed index" using rc idx gs by simp
      ultimately show ?thesis by (rule rtranclp.rtrancl_into_rtrancl [rotated])
    next
      case False
      then have "voxels g ! i = VOXEL_OUTSIDE" using vx i o gs by simp
      then show ?thesis using rc i by simp
    qed
  qed
  have I5: "\<forall>i < grid_size g1. voxels g' ! i = VOXEL_OUTSIDE \<and> i \<notin> set (q @ new) \<longrightarrow>
        (\<forall>n. free_step g1 i n \<longrightarrow> voxels g' ! n = VOXEL_OUTSIDE)"
  proof (intro allI impI)
    fix i n assume i: "i < grid_size g1"
      and o: "voxels g' ! i = VOXEL_OUTSIDE \<and> i \<notin> set (q @ new)"
      and st: "free_step g1 i n"
    have n: "n < grid_size g1" "voxels g1 ! n \<noteq> VOXEL_BOUNDARY"
      "face_adjacent (voxel_ijk g1 i) (voxel_ijk g1 n)"
      using st by (simp_all add: free_step_def)
    have "i \<notin> set new" using o by simp
    then have og: "voxels g ! i = VOXEL_OUTSIDE" using vx i o gs by simp
    show "voxels g' ! n = VOXEL_OUTSIDE"
    proof (cases "i = index")
      case True
      have "voxels g1 ! n = VOXEL_UNKNOWN" using cl n by (auto simp: classified_def)
      then have "voxels g ! n = VOXEL_UNKNOWN \<or> voxels g ! n = VOXEL_OUTSIDE"
        using fr n(1) by auto
      then show ?thesis
      proof
        assume u: "voxels g ! n = VOXEL_UNKNOWN"
        then have "n \<in> set new" using sn n True gs ijk by simp
        then show ?thesis using vx n(1) gs by simp
      next
        assume "voxels g ! n = VOXEL_OUTSIDE"
        then show ?thesis using keep n(1) by simp
      qed
    next
      case False
      then have "i \<notin> set (index # q)" using o by simp
      then have "voxels g ! n = VOXEL_OUTSIDE" using cls i og st by blast
      then show ?thesis using keep n(1) by simp
    qed
  qed
  have I6: "voxels g' ! seed = VOXEL_OUTSIDE" using keep sd by simp
  have "flood_inv g1 seed g' (q @ new)"
    unfolding flood_inv_def
    using fr' dm ln bb I2 I3a I3b I4 I5 I6 sd(1) by simp
  moreover have "\<forall>n \<in> set new. n < grid_size g1 \<and> voxels g ! n = VOXEL_UNKNOWN"
    using new_u by blast
  moreover have "\<forall>i < grid_size g1. voxels g' ! i =
              (if i \<in> set new then VOXEL_OUTSIDE else voxels g ! i)"
    using vx gs by simp
  ultimately show ?thesis using r dn by blast
qed

lemma flood_loop_inv:
  assumes "flood_inv g1 seed g q" "classified g1"
  shows "\<exists>gf. flood_loop g q = Inr gf \<and> flood_inv g1 seed gf []"
  using assms
proof (induction g q rule: flood_loop.induct)
  case (1 g)
  then show ?case by simp
next
  case (2 g index q)
  from flood_inv_step [OF "2.prems"] obtain g' new where
    r: "flood_body g index q = Inr (g', q @ new)" and inv: "flood_inv g1 seed g' (q @ new)"
    by blast
  from "2.IH" [OF r refl inv "2.prems"(2)] show ?case using r by simp
qed



lemma flood_inv_final:
  assumes "flood_inv g1 seed gf []"
  shows "\<forall>i < grid_size g1. voxels gf ! i = VOXEL_OUTSIDE \<longleftrightarrow> (free_step g1)\<^sup>*\<^sup>* seed i"
proof (intro allI impI iffI)
  fix i assume "i < grid_size g1" "voxels gf ! i = VOXEL_OUTSIDE"
  then show "(free_step g1)\<^sup>*\<^sup>* seed i" using assms by (simp add: flood_inv_def)
next
  fix i assume "i < grid_size g1" and r: "(free_step g1)\<^sup>*\<^sup>* seed i"
  have cls: "\<And>a b. a < grid_size g1 \<Longrightarrow> voxels gf ! a = VOXEL_OUTSIDE \<Longrightarrow> free_step g1 a b \<Longrightarrow>
      voxels gf ! b = VOXEL_OUTSIDE"
    using assms unfolding flood_inv_def by simp
  from r have "seed < grid_size g1 \<longrightarrow> voxels gf ! seed = VOXEL_OUTSIDE \<longrightarrow>
      i < grid_size g1 \<and> voxels gf ! i = VOXEL_OUTSIDE"
  proof (induction rule: rtranclp_induct)
    case base
    then show ?case by simp
  next
    case (step y z)
    then show ?case using cls [of y z] by (auto simp: free_step_def)
  qed
  then show "voxels gf ! i = VOXEL_OUTSIDE" using assms by (simp add: flood_inv_def)
qed

lemma flood_loop_frame:
  assumes "flood_inv g1 seed g q" "classified g1"
  shows "\<exists>gf. flood_loop g q = Inr gf \<and> flood_inv g1 seed gf [] \<and>
           (\<forall>i < grid_size g1. voxels gf ! i = voxels g ! i \<or>
              (voxels g ! i = VOXEL_UNKNOWN \<and> voxels gf ! i = VOXEL_OUTSIDE))"
  using assms
proof (induction g q rule: flood_loop.induct)
  case (1 g)
  then show ?case by simp
next
  case (2 g index q)
  from flood_inv_step [OF "2.prems"] obtain g' new where
    r: "flood_body g index q = Inr (g', q @ new)" and inv: "flood_inv g1 seed g' (q @ new)"
    and nu: "\<forall>n \<in> set new. n < grid_size g1 \<and> voxels g ! n = VOXEL_UNKNOWN"
    and vx: "\<forall>i < grid_size g1. voxels g' ! i =
              (if i \<in> set new then VOXEL_OUTSIDE else voxels g ! i)"
    by blast
  from "2.IH" [OF r refl inv "2.prems"(2)] obtain gf where
    f: "flood_loop g' (q @ new) = Inr gf" "flood_inv g1 seed gf []"
    and fr: "\<forall>i < grid_size g1. voxels gf ! i = voxels g' ! i \<or>
              (voxels g' ! i = VOXEL_UNKNOWN \<and> voxels gf ! i = VOXEL_OUTSIDE)"
    by blast
  have "\<forall>i < grid_size g1. voxels gf ! i = voxels g ! i \<or>
              (voxels g ! i = VOXEL_UNKNOWN \<and> voxels gf ! i = VOXEL_OUTSIDE)"
  proof (intro allI impI)
    fix i assume i: "i < grid_size g1"
    show "voxels gf ! i = voxels g ! i \<or>
              (voxels g ! i = VOXEL_UNKNOWN \<and> voxels gf ! i = VOXEL_OUTSIDE)"
    proof (cases "i \<in> set new")
      case True
      then have "voxels g ! i = VOXEL_UNKNOWN" "voxels g' ! i = VOXEL_OUTSIDE"
        using nu vx i by simp_all
      then show ?thesis using fr i by auto
    next
      case False
      then have "voxels g' ! i = voxels g ! i" using vx i by simp
      then show ?thesis using fr i by auto
    qed
  qed
  then show ?case using f r by simp
qed


subsection \<open>The classified grid\<close>

lemma classification_pass_classified:
  assumes wf: "wf_grid g" and ord: "set order = {..<grid_size g}"
    and cp: "classification_pass hit order g = (g1, flood_seed)"
  shows "wf_grid g1" "classified g1" "dim g1 = dim g" "len g1 = len g" "bbox g1 = bbox g"
    "grid_size g1 = grid_size g"
    "\<forall>i < grid_size g. voxels g1 ! i = mesh_tag hit g i"
    "flood_seed = - 1 \<or> (0 \<le> flood_seed \<and> nat flood_seed < grid_size g \<and>
        seed_candidate hit g (nat flood_seed) \<and> voxels g1 ! nat flood_seed = VOXEL_UNKNOWN)"
    "(flood_seed = - 1) = (\<forall>i < grid_size g. \<not> seed_candidate hit g i)"
proof -
  note r = classification_pass_result [OF cp]
  have len: "length (voxels g) = grid_size g" using wf by (simp add: wf_grid_def)
  show dm: "dim g1 = dim g" and "len g1 = len g" and "bbox g1 = bbox g" using r by simp_all
  show gs: "grid_size g1 = grid_size g" using dm by (rule grid_size_cong)
  show "wf_grid g1" using r len gs by (simp add: wf_grid_def)
  show tags: "\<forall>i < grid_size g. voxels g1 ! i = mesh_tag hit g i" using r len ord by simp
  then show "classified g1" using gs by (simp add: classified_def mesh_tag_def)
  have sd: "if \<exists>i \<in> set order. seed_candidate hit g i
          then \<exists>i \<in> set order. seed_candidate hit g i \<and> flood_seed = int i
          else flood_seed = - 1" using r by blast
  show "flood_seed = - 1 \<or> (0 \<le> flood_seed \<and> nat flood_seed < grid_size g \<and>
        seed_candidate hit g (nat flood_seed) \<and> voxels g1 ! nat flood_seed = VOXEL_UNKNOWN)"
  proof (cases "\<exists>i \<in> set order. seed_candidate hit g i")
    case True
    with sd obtain i where i: "i \<in> set order" "seed_candidate hit g i" "flood_seed = int i" by auto
    then have "i < grid_size g" using ord by simp
    moreover from this have "voxels g1 ! i = VOXEL_UNKNOWN"
      using tags i(2) by (simp add: mesh_tag_def seed_candidate_def)
    ultimately show ?thesis using i by simp
  next
    case False
    then show ?thesis using sd by simp
  qed
  show "(flood_seed = - 1) = (\<forall>i < grid_size g. \<not> seed_candidate hit g i)"
  proof (cases "\<exists>i \<in> set order. seed_candidate hit g i")
    case True
    with sd obtain i where i: "i \<in> set order" "seed_candidate hit g i" "flood_seed = int i" by auto
    then show ?thesis using ord by auto
  next
    case False
    then show ?thesis using sd ord by auto
  qed
qed

subsection \<open>The residual pass\<close>



subsection \<open>The flood stage and the examples\<close>

lemma set_sequential: "set (sequential n) = {..<n}"
  by (auto simp: sequential_def)

lemma flood_stage_result:
  assumes wf: "wf_grid g" and ord: "set order = {..<grid_size g}"
    and cp: "classification_pass hit order g = (g1, flood_seed)"
  shows "\<exists>g2. flood_stage g1 flood_seed = Inr g2 \<and> wf_grid g2 \<and>
           dim g2 = dim g1 \<and> len g2 = len g1 \<and> bbox g2 = bbox g1 \<and>
           (\<forall>i < grid_size g1. voxels g2 ! i = voxels g1 ! i \<or>
              (voxels g1 ! i = VOXEL_UNKNOWN \<and> voxels g2 ! i = VOXEL_OUTSIDE)) \<and>
           (0 < flood_seed \<longrightarrow>
              flood_inv g1 (nat flood_seed) g2 [] \<and>
              flood_inv g1 (nat flood_seed)
                (g1\<lparr>voxels := (voxels g1)[nat flood_seed := VOXEL_OUTSIDE]\<rparr>) [nat flood_seed] \<and>
              flood_loop (g1\<lparr>voxels := (voxels g1)[nat flood_seed := VOXEL_OUTSIDE]\<rparr>)
                [nat flood_seed] = Inr g2)"
proof (cases "0 < flood_seed")
  case False
  then show ?thesis
    using classification_pass_classified(1) [OF wf ord cp] by (simp add: flood_stage_def)
next
  case True
  note c = classification_pass_classified [OF wf ord cp]
  let ?s = "nat flood_seed"
  let ?g = "g1\<lparr>voxels := (voxels g1)[?s := VOXEL_OUTSIDE]\<rparr>"
  have s: "?s < grid_size g1" "voxels g1 ! ?s = VOXEL_UNKNOWN" using c(6,8) True by auto
  have len: "length (voxels g1) = grid_size g1" using c(1) by (simp add: wf_grid_def)
  have inv0: "flood_inv g1 ?s ?g [?s]" using flood_inv_initial [OF c(1,2) s] .
  from flood_loop_frame [OF inv0 c(2)] obtain g2 where
    f: "flood_loop ?g [?s] = Inr g2" and inv: "flood_inv g1 ?s g2 []" by blast
  have "flood_stage g1 flood_seed = Inr g2"
    using True s(1) len f by (simp add: flood_stage_def)
  moreover have "wf_grid g2 \<and> dim g2 = dim g1 \<and> len g2 = len g1 \<and> bbox g2 = bbox g1 \<and>
           (\<forall>i < grid_size g1. voxels g2 ! i = voxels g1 ! i \<or>
              (voxels g1 ! i = VOXEL_UNKNOWN \<and> voxels g2 ! i = VOXEL_OUTSIDE))"
    using inv unfolding flood_inv_def by blast
  ultimately show ?thesis using inv inv0 f by blast
qed

lemma unit_box_geometry:
  "grid_geometry unit_box 2 = Inr (grid_2x2x2 (replicate 8 VOXEL_UNKNOWN))"
  by (simp add: grid_geometry_def unit_box_def delta_def delta_x_def delta_y_def delta_z_def
      max_entry_def double_div_def grid_2x2x2_def)

lemma grid_2x2x2_size: "grid_size (grid_2x2x2 vs) = 8"
  by (simp add: grid_size_def grid_2x2x2_def)

lemma upt8: "[0..<8] = [0, 1, 2, 3, 4, 5, 6, 7]"
  by (simp add: upt_rec)

lemma far_corner_classified:
  "classification_pass far_corner_hit (sequential 8) (grid_2x2x2 (replicate 8 VOXEL_UNKNOWN)) =
     (grid_2x2x2 [VOXEL_UNKNOWN, VOXEL_UNKNOWN, VOXEL_UNKNOWN, VOXEL_UNKNOWN,
                  VOXEL_UNKNOWN, VOXEL_UNKNOWN, VOXEL_UNKNOWN, VOXEL_BOUNDARY], 6)"
  by code_simp

lemma far_corner_flooded:
  "flood_stage (grid_2x2x2 [VOXEL_UNKNOWN, VOXEL_UNKNOWN, VOXEL_UNKNOWN, VOXEL_UNKNOWN,
                  VOXEL_UNKNOWN, VOXEL_UNKNOWN, VOXEL_UNKNOWN, VOXEL_BOUNDARY]) 6 =
   Inr (grid_2x2x2 [VOXEL_OUTSIDE, VOXEL_OUTSIDE, VOXEL_OUTSIDE, VOXEL_OUTSIDE,
                  VOXEL_OUTSIDE, VOXEL_OUTSIDE, VOXEL_OUTSIDE, VOXEL_BOUNDARY])"
  by code_simp









lemma far_corner_pass:
  "classification_pass far_corner_hit
     (sequential (grid_size (grid_2x2x2 (replicate 8 VOXEL_UNKNOWN))))
     (grid_2x2x2 (replicate 8 VOXEL_UNKNOWN)) = (far_corner_grid, 6)"
  using far_corner_classified by (simp add: grid_2x2x2_size)


subsection \<open>The claims about the voxel grid\<close>

text \<open>
  Claim C6. When the flood stage runs (the classification pass left a seed
  \<open>flood_seed > 0\<close>), it ends without a fault, and in the grid it returns the voxels
  tagged OUTSIDE are exactly those reachable from the seed by a path of face-neighbours
  inside the grid none of which is BOUNDARY; the voxels tagged BOUNDARY are exactly
  those the classification pass tagged so; and the neighbour list of a voxel holds
  exactly its face-neighbours inside the grid bounds.
\<close>

theorem flood_marks_reachable_voxels:
  assumes "wf_grid g" and "set order = {..<grid_size g}"
    and "classification_pass hit order g = (g1, flood_seed)" and "0 < flood_seed"
  shows "\<exists>g2. flood_stage g1 flood_seed = Inr g2 \<and>
           (\<forall>i < grid_size g1. voxels g2 ! i = VOXEL_OUTSIDE \<longleftrightarrow>
              (free_step g1)\<^sup>*\<^sup>* (nat flood_seed) i) \<and>
           (\<forall>i < grid_size g1. voxels g2 ! i = VOXEL_BOUNDARY \<longleftrightarrow>
              voxels g1 ! i = VOXEL_BOUNDARY) \<and>
           (\<forall>a < grid_size g1. \<forall>b. b \<in> set (voxel_n6 g1 (voxel_ijk g1 a)) \<longleftrightarrow>
              b < grid_size g1 \<and> face_adjacent (voxel_ijk g1 a) (voxel_ijk g1 b))"
proof -
  from flood_stage_result [OF assms(1-3)] assms(4) obtain g2 where
    r: "flood_stage g1 flood_seed = Inr g2" and inv: "flood_inv g1 (nat flood_seed) g2 []"
    and fr: "\<forall>i < grid_size g1. voxels g2 ! i = voxels g1 ! i \<or>
              (voxels g1 ! i = VOXEL_UNKNOWN \<and> voxels g2 ! i = VOXEL_OUTSIDE)"
    by blast
  have "\<forall>i < grid_size g1. voxels g2 ! i = VOXEL_BOUNDARY \<longleftrightarrow> voxels g1 ! i = VOXEL_BOUNDARY"
    using fr by (metis voxel_tag.distinct(1,9))
  moreover have "\<forall>a < grid_size g1. \<forall>b. b \<in> set (voxel_n6 g1 (voxel_ijk g1 a)) \<longleftrightarrow>
              b < grid_size g1 \<and> face_adjacent (voxel_ijk g1 a) (voxel_ijk g1 b)"
    using voxel_n6_iff by blast
  ultimately show ?thesis using r flood_inv_final [OF inv] by blast
qed

theorem flood_marks_reachable_voxels_witness:
  "flood_stage far_corner_grid 6 =
     Inr (grid_2x2x2 [VOXEL_OUTSIDE, VOXEL_OUTSIDE, VOXEL_OUTSIDE, VOXEL_OUTSIDE,
                      VOXEL_OUTSIDE, VOXEL_OUTSIDE, VOXEL_OUTSIDE, VOXEL_BOUNDARY]) \<and>
   (free_step far_corner_grid)\<^sup>*\<^sup>* 6 0 \<and> \<not> (free_step far_corner_grid)\<^sup>*\<^sup>* 6 7"
proof -
  have wf: "wf_grid (grid_2x2x2 (replicate 8 VOXEL_UNKNOWN))"
    using grid_geometry_wf [OF unit_box_geometry] by simp
  have pos: "(0::int) < 6" by simp
  from flood_marks_reachable_voxels [OF wf set_sequential far_corner_pass pos]
  obtain g2 where f: "flood_stage far_corner_grid 6 = Inr g2"
    and r: "\<forall>i < grid_size far_corner_grid. voxels g2 ! i = VOXEL_OUTSIDE \<longleftrightarrow>
              (free_step far_corner_grid)\<^sup>*\<^sup>* (nat 6) i"
    by blast
  have g2: "g2 = grid_2x2x2 [VOXEL_OUTSIDE, VOXEL_OUTSIDE, VOXEL_OUTSIDE, VOXEL_OUTSIDE,
                      VOXEL_OUTSIDE, VOXEL_OUTSIDE, VOXEL_OUTSIDE, VOXEL_BOUNDARY]"
    using f far_corner_flooded by simp
  have "(0::nat) < grid_size far_corner_grid" "(7::nat) < grid_size far_corner_grid"
    by (simp_all add: grid_2x2x2_size)
  from r [rule_format, OF this(1)] r [rule_format, OF this(2)]
  show ?thesis using f unfolding g2 by (simp add: grid_2x2x2_def)
qed









text \<open>
  Claim C1. A voxel of the outer shell that is not BOUNDARY must start the flood. At
  resolution 2 over the unit cube, with a surface that meets every voxel but the one at
  the origin, the classification pass leaves the seed \<open>flood_seed = 0\<close>, voxel 0
  being a shell voxel that is not boundary; the test \<open>flood_seed > 0\<close> then skips
  the flood, and the voxel, which lies outside the surface, ends INSIDE.
\<close>

theorem flood_skipped_when_seed_is_voxel_zero:
  "grid_geometry unit_box 2 = Inr (grid_2x2x2 (replicate 8 VOXEL_UNKNOWN)) \<and>
   classification_pass notch_hit (sequential 8) (grid_2x2x2 (replicate 8 VOXEL_UNKNOWN)) =
     (grid_2x2x2 [VOXEL_UNKNOWN, VOXEL_BOUNDARY, VOXEL_BOUNDARY, VOXEL_BOUNDARY,
                  VOXEL_BOUNDARY, VOXEL_BOUNDARY, VOXEL_BOUNDARY, VOXEL_BOUNDARY], 0) \<and>
   seed_candidate notch_hit (grid_2x2x2 (replicate 8 VOXEL_UNKNOWN)) 0 \<and>
   flood_stage (grid_2x2x2 [VOXEL_UNKNOWN, VOXEL_BOUNDARY, VOXEL_BOUNDARY, VOXEL_BOUNDARY,
                  VOXEL_BOUNDARY, VOXEL_BOUNDARY, VOXEL_BOUNDARY, VOXEL_BOUNDARY]) 0 =
     Inr (grid_2x2x2 [VOXEL_UNKNOWN, VOXEL_BOUNDARY, VOXEL_BOUNDARY, VOXEL_BOUNDARY,
                  VOXEL_BOUNDARY, VOXEL_BOUNDARY, VOXEL_BOUNDARY, VOXEL_BOUNDARY]) \<and>
   voxelize_mesh unit_box notch_hit sequential 2 =
     Inr (grid_2x2x2 [VOXEL_INSIDE, VOXEL_BOUNDARY, VOXEL_BOUNDARY, VOXEL_BOUNDARY,
                  VOXEL_BOUNDARY, VOXEL_BOUNDARY, VOXEL_BOUNDARY, VOXEL_BOUNDARY])"
proof -
  have a: "classification_pass notch_hit (sequential 8) (grid_2x2x2 (replicate 8 VOXEL_UNKNOWN)) =
     (grid_2x2x2 [VOXEL_UNKNOWN, VOXEL_BOUNDARY, VOXEL_BOUNDARY, VOXEL_BOUNDARY,
                  VOXEL_BOUNDARY, VOXEL_BOUNDARY, VOXEL_BOUNDARY, VOXEL_BOUNDARY], 0)"
    by code_simp
  have b: "seed_candidate notch_hit (grid_2x2x2 (replicate 8 VOXEL_UNKNOWN)) 0"
    by code_simp
  have c: "flood_stage (grid_2x2x2 [VOXEL_UNKNOWN, VOXEL_BOUNDARY, VOXEL_BOUNDARY, VOXEL_BOUNDARY,
                  VOXEL_BOUNDARY, VOXEL_BOUNDARY, VOXEL_BOUNDARY, VOXEL_BOUNDARY]) 0 =
     Inr (grid_2x2x2 [VOXEL_UNKNOWN, VOXEL_BOUNDARY, VOXEL_BOUNDARY, VOXEL_BOUNDARY,
                  VOXEL_BOUNDARY, VOXEL_BOUNDARY, VOXEL_BOUNDARY, VOXEL_BOUNDARY])"
    by (simp add: flood_stage_def)
  have d: "residual_pass 8 (grid_2x2x2 [VOXEL_UNKNOWN, VOXEL_BOUNDARY, VOXEL_BOUNDARY, VOXEL_BOUNDARY,
                  VOXEL_BOUNDARY, VOXEL_BOUNDARY, VOXEL_BOUNDARY, VOXEL_BOUNDARY]) =
      grid_2x2x2 [VOXEL_INSIDE, VOXEL_BOUNDARY, VOXEL_BOUNDARY, VOXEL_BOUNDARY,
                  VOXEL_BOUNDARY, VOXEL_BOUNDARY, VOXEL_BOUNDARY, VOXEL_BOUNDARY]"
    by code_simp
  have "voxelize_mesh unit_box notch_hit sequential 2 =
     Inr (grid_2x2x2 [VOXEL_INSIDE, VOXEL_BOUNDARY, VOXEL_BOUNDARY, VOXEL_BOUNDARY,
                  VOXEL_BOUNDARY, VOXEL_BOUNDARY, VOXEL_BOUNDARY, VOXEL_BOUNDARY])"
    by (simp add: voxelize_mesh_def unit_box_geometry grid_2x2x2_size a c d)
  then show ?thesis using unit_box_geometry a b c by simp
qed

text \<open>
  Claim C2, as stated: a call with resolution 0 reports an error and aborts before the
  buffer is allocated. It fails at the unit cube: the call returns a grid, with an
  empty buffer, and reports nothing.
\<close>

theorem zero_resolution_is_not_rejected:
  "voxelize_mesh unit_box notch_hit sequential 0 =
     Inr \<lparr>voxels = [], dim = (0, 0, 0), len = PlusInf, bbox = unit_box\<rparr> \<and>
   \<not> (\<exists>e. voxelize_mesh unit_box notch_hit sequential 0 = Inl e)"
proof -
  have m: "0 < max_entry (delta unit_box)"
    by (simp add: unit_box_def delta_def delta_x_def delta_y_def delta_z_def max_entry_def)
  have "voxelize_mesh unit_box notch_hit sequential 0 =
     Inr \<lparr>voxels = [], dim = (0, 0, 0), len = PlusInf, bbox = unit_box\<rparr>"
    by (simp add: voxelize_mesh_def grid_geometry_zero_resolution [OF m] grid_size_def
        sequential_def classification_pass_def flood_stage_def residual_pass_def)
  then show ?thesis by simp
qed

text \<open>
  Claim C2, amended. The configuration is not validated. With resolution 0 and a volume
  whose longest extent is positive, both variants compute an infinite edge length and
  zero voxels on every axis, allocate an empty buffer and return that empty grid.
\<close>

theorem zero_resolution_returns_empty_grid:
  assumes "0 < max_entry (delta box)" and "sched 0 = []"
  shows "voxelize_mesh box hit sched 0 =
           Inr \<lparr>voxels = [], dim = (0, 0, 0), len = PlusInf, bbox = box\<rparr> \<and>
         voxelize_implicit f corner box sched 0 =
           Inr \<lparr>voxels = [], dim = (0, 0, 0), len = PlusInf, bbox = box\<rparr>"
  using assms(2)
  by (simp add: voxelize_mesh_def voxelize_implicit_def grid_geometry_zero_resolution [OF assms(1)]
      grid_size_def classification_pass_def flood_stage_def residual_pass_def)

theorem zero_resolution_returns_empty_grid_witness:
  "0 < max_entry (delta unit_box) \<and> sequential 0 = [] \<and>
   voxelize_mesh unit_box far_corner_hit sequential 0 =
     Inr \<lparr>voxels = [], dim = (0, 0, 0), len = PlusInf, bbox = unit_box\<rparr> \<and>
   voxelize_implicit diagonal_plane unit_corner unit_box sequential 0 =
     Inr \<lparr>voxels = [], dim = (0, 0, 0), len = PlusInf, bbox = unit_box\<rparr>"
proof -
  have m: "0 < max_entry (delta unit_box)"
    by (simp add: unit_box_def delta_def delta_x_def delta_y_def delta_z_def max_entry_def)
  have s: "sequential 0 = []" by (simp add: sequential_def)
  from zero_resolution_returns_empty_grid [where sched = sequential, OF m s, of far_corner_hit diagonal_plane unit_corner]
  show ?thesis using m s by simp
qed

section \<open>Properties of the conversion of hexahedra\<close>

lemma face_map_lookup:
  assumes "face_map_inv faces f_map"
  shows "map_of f_map k = Some fid \<longleftrightarrow> fid < length faces \<and> sort (faces ! fid) = k"
proof -
  have fm: "f_map = zip (map sort faces) [0..<length faces]"
    and d: "distinct (map sort faces)" using assms by (simp_all add: face_map_inv_def)
  have "distinct (map fst f_map)" using d fm by simp
  then have "map_of f_map k = Some fid \<longleftrightarrow> (k, fid) \<in> set f_map"
    by (rule map_of_eq_Some_iff)
  also have "\<dots> \<longleftrightarrow> fid < length faces \<and> sort (faces ! fid) = k"
  proof
    assume "(k, fid) \<in> set f_map"
    then show "fid < length faces \<and> sort (faces ! fid) = k"
      unfolding fm by (auto simp: set_zip)
  next
    assume a: "fid < length faces \<and> sort (faces ! fid) = k"
    then have "(k, fid) = zip (map sort faces) [0..<length faces] ! fid" by simp
    moreover have "fid < length (zip (map sort faces) [0..<length faces])" using a by simp
    ultimately show "(k, fid) \<in> set f_map" unfolding fm by (metis nth_mem)
  qed
  finally show ?thesis .
qed

lemma face_map_lookup_None:
  assumes "face_map_inv faces f_map"
  shows "map_of f_map k = None \<longleftrightarrow> k \<notin> set (map sort faces)"
proof -
  have "map_of f_map k = None \<longleftrightarrow> (\<forall>fid. map_of f_map k \<noteq> Some fid)" by auto
  also have "\<dots> \<longleftrightarrow> k \<notin> set (map sort faces)"
    unfolding face_map_lookup [OF assms] by (force simp: in_set_conv_nth)
  finally show ?thesis .
qed

lemma face_map_inv_length: "face_map_inv faces f_map \<Longrightarrow> length f_map = length faces"
  by (simp add: face_map_inv_def)

lemma add_face_new:
  assumes "face_map_inv faces f_map" "sort f \<notin> set (map sort faces)"
  shows "add_face f (faces, f_map, ids, ws) =
           (faces @ [f], f_map @ [(sort f, length faces)], ids @ [length faces], ws @ [True])"
    and "face_map_inv (faces @ [f]) (f_map @ [(sort f, length faces)])"
proof -
  show "add_face f (faces, f_map, ids, ws) =
           (faces @ [f], f_map @ [(sort f, length faces)], ids @ [length faces], ws @ [True])"
    using assms face_map_lookup_None [OF assms(1), of "sort f"] face_map_inv_length [OF assms(1)]
    by (simp add: add_face_def Let_def)
  show "face_map_inv (faces @ [f]) (f_map @ [(sort f, length faces)])"
    using assms by (simp add: face_map_inv_def)
qed

lemma add_face_old:
  assumes "face_map_inv faces f_map" "sort f \<in> set (map sort faces)"
  shows "\<exists>fid. fid < length faces \<and> sort (faces ! fid) = sort f \<and>
           add_face f (faces, f_map, ids, ws) = (faces, f_map, ids @ [fid], ws @ [False])"
proof -
  from assms(2) obtain fid where "map_of f_map (sort f) = Some fid"
    using face_map_lookup_None [OF assms(1), of "sort f"] by auto
  then show ?thesis
    using face_map_lookup [OF assms(1), of "sort f" fid] by (simp add: add_face_def)
qed

lemma slot_face_row: "slot_face hexa hid i = row_face hexa (hid * 8) (HEXA_FACES ! i)"
  by (simp add: slot_face_def row_face_def)

lemma hexa_face_in_range:
  assumes "row \<in> set HEXA_FACES" "base + 8 \<le> length hexa"
  shows "hexa_face hexa base row = Inr (row_face hexa base row)"
proof -
  from assms(1) consider "row = [0, 3, 2, 1]" | "row = [1, 2, 6, 5]" | "row = [4, 5, 6, 7]"
    | "row = [3, 0, 4, 7]" | "row = [0, 1, 5, 4]" | "row = [2, 3, 7, 6]"
    by (auto simp: HEXA_FACES_def)
  then show ?thesis
    using assms(2) by cases (simp_all add: hexa_face_def vector_at_def row_face_def)
qed

lemma face_loop_fold:
  assumes "set rows \<subseteq> set HEXA_FACES" "base + 8 \<le> length hexa"
  shows "face_loop hexa base rows s = Inr (fold add_face (map (row_face hexa base) rows) s)"
  using assms(1)
proof (induction rows arbitrary: s)
  case Nil
  then show ?case by simp
next
  case (Cons row rows)
  then have "row \<in> set HEXA_FACES" "set rows \<subseteq> set HEXA_FACES" by simp_all
  then show ?case
    using hexa_face_in_range [OF _ assms(2)] Cons.IH by simp
qed

lemma fold_add_face:
  assumes "face_map_inv faces f_map"
  shows "\<exists>faces' f_map' ids' ws'.
           fold add_face fs (faces, f_map, ids, ws) = (faces', f_map', ids @ ids', ws @ ws') \<and>
           face_map_inv faces' f_map' \<and> (\<exists>new. faces' = faces @ new) \<and>
           set (map sort faces') = set (map sort faces) \<union> set (map sort fs) \<and>
           length ids' = length fs \<and> length ws' = length fs \<and>
           (\<forall>j < length fs.
              ids' ! j < length faces' \<and> sort (faces' ! (ids' ! j)) = sort (fs ! j) \<and>
              (ws' ! j \<longleftrightarrow>
                 sort (fs ! j) \<notin> set (map sort faces) \<union> set (map sort (take j fs))))"
  using assms
proof (induction fs arbitrary: faces f_map ids ws)
  case Nil
  then show ?case by simp
next
  case (Cons f fs)
  show ?case
  proof (cases "sort f \<in> set (map sort faces)")
    case False
    note n = add_face_new(1) [OF Cons.prems False, of ids ws] add_face_new(2) [OF Cons.prems False]
    from Cons.IH [OF n(2), of "ids @ [length faces]" "ws @ [True]"]
    obtain faces' f_map' ids' ws' new where
      r: "fold add_face fs (faces @ [f], f_map @ [(sort f, length faces)],
            ids @ [length faces], ws @ [True])
          = (faces', f_map', (ids @ [length faces]) @ ids', (ws @ [True]) @ ws')"
      and inv: "face_map_inv faces' f_map'" and pre: "faces' = (faces @ [f]) @ new"
      and st: "set (map sort faces') = set (map sort (faces @ [f])) \<union> set (map sort fs)"
      and ln: "length ids' = length fs" "length ws' = length fs"
      and el: "\<forall>j < length fs.
              ids' ! j < length faces' \<and> sort (faces' ! (ids' ! j)) = sort (fs ! j) \<and>
              (ws' ! j \<longleftrightarrow>
                 sort (fs ! j) \<notin> set (map sort (faces @ [f])) \<union> set (map sort (take j fs)))"
      by blast
    have r': "fold add_face (f # fs) (faces, f_map, ids, ws)
          = (faces', f_map', ids @ (length faces # ids'), ws @ (True # ws'))"
      using r n(1) by simp
    have el': "\<forall>j < length (f # fs).
              (length faces # ids') ! j < length faces' \<and>
              sort (faces' ! ((length faces # ids') ! j)) = sort ((f # fs) ! j) \<and>
              ((True # ws') ! j \<longleftrightarrow>
                 sort ((f # fs) ! j) \<notin> set (map sort faces) \<union> set (map sort (take j (f # fs))))"
    proof (intro allI impI)
      fix j assume j: "j < length (f # fs)"
      show "(length faces # ids') ! j < length faces' \<and>
              sort (faces' ! ((length faces # ids') ! j)) = sort ((f # fs) ! j) \<and>
              ((True # ws') ! j \<longleftrightarrow>
                 sort ((f # fs) ! j) \<notin> set (map sort faces) \<union> set (map sort (take j (f # fs))))"
      proof (cases j)
        case 0
        then show ?thesis using pre False by (simp add: nth_append)
      next
        case (Suc k)
        then have "k < length fs" using j by simp
        then show ?thesis using el Suc by auto
      qed
    qed
    have "set (map sort faces') = set (map sort faces) \<union> set (map sort (f # fs))"
      using st by auto
    moreover have "\<exists>new. faces' = faces @ new" using pre by simp
    ultimately show ?thesis using r' inv ln el'
      by (intro exI [of _ faces'] exI [of _ f_map'] exI [of _ "length faces # ids'"]
          exI [of _ "True # ws'"]) simp
  next
    case True
    from add_face_old [OF Cons.prems True, of ids ws] obtain fid where
      fid: "fid < length faces" "sort (faces ! fid) = sort f"
      and a: "add_face f (faces, f_map, ids, ws) = (faces, f_map, ids @ [fid], ws @ [False])"
      by blast
    from Cons.IH [OF Cons.prems, of "ids @ [fid]" "ws @ [False]"]
    obtain faces' f_map' ids' ws' new where
      r: "fold add_face fs (faces, f_map, ids @ [fid], ws @ [False])
          = (faces', f_map', (ids @ [fid]) @ ids', (ws @ [False]) @ ws')"
      and inv: "face_map_inv faces' f_map'" and pre: "faces' = faces @ new"
      and st: "set (map sort faces') = set (map sort faces) \<union> set (map sort fs)"
      and ln: "length ids' = length fs" "length ws' = length fs"
      and el: "\<forall>j < length fs.
              ids' ! j < length faces' \<and> sort (faces' ! (ids' ! j)) = sort (fs ! j) \<and>
              (ws' ! j \<longleftrightarrow>
                 sort (fs ! j) \<notin> set (map sort faces) \<union> set (map sort (take j fs)))"
      by blast
    have r': "fold add_face (f # fs) (faces, f_map, ids, ws)
          = (faces', f_map', ids @ (fid # ids'), ws @ (False # ws'))"
      using r a by simp
    have el': "\<forall>j < length (f # fs).
              (fid # ids') ! j < length faces' \<and>
              sort (faces' ! ((fid # ids') ! j)) = sort ((f # fs) ! j) \<and>
              ((False # ws') ! j \<longleftrightarrow>
                 sort ((f # fs) ! j) \<notin> set (map sort faces) \<union> set (map sort (take j (f # fs))))"
    proof (intro allI impI)
      fix j assume j: "j < length (f # fs)"
      show "(fid # ids') ! j < length faces' \<and>
              sort (faces' ! ((fid # ids') ! j)) = sort ((f # fs) ! j) \<and>
              ((False # ws') ! j \<longleftrightarrow>
                 sort ((f # fs) ! j) \<notin> set (map sort faces) \<union> set (map sort (take j (f # fs))))"
      proof (cases j)
        case 0
        then show ?thesis using pre fid True by (simp add: nth_append)
      next
        case (Suc k)
        then have "k < length fs" using j by simp
        then show ?thesis using el Suc True by auto
      qed
    qed
    have "set (map sort faces') = set (map sort faces) \<union> set (map sort (f # fs))"
      using st True by auto
    moreover have "\<exists>new. faces' = faces @ new" using pre by simp
    ultimately show ?thesis using r' inv ln el'
      by (intro exI [of _ faces'] exI [of _ f_map'] exI [of _ "fid # ids'"]
          exI [of _ "False # ws'"]) simp
  qed
qed

lemma length_HEXA_FACES: "length HEXA_FACES = 6"
  by (simp add: HEXA_FACES_def)

lemma set_map_take:
  assumes "i \<le> length xs"
  shows "set (map f (take i xs)) = (\<lambda>j. f (xs ! j)) ` {..<i}"
proof -
  have "set (take i xs) = nth xs ` {0..<i}" using nth_image [OF assms] by simp
  then have "set (map f (take i xs)) = f ` nth xs ` {0..<i}" by simp
  also have "\<dots> = (\<lambda>j. f (xs ! j)) ` {..<i}"
    by (simp add: image_image atLeast0LessThan)
  finally show ?thesis .
qed

lemma rows_length: "length (map (row_face hexa b) HEXA_FACES) = 6"
  by (simp add: length_HEXA_FACES)

lemma rows_key:
  "i < 6 \<Longrightarrow> sort (map (row_face hexa (hid * 8)) HEXA_FACES ! i) = slot_key hexa hid i"
  by (simp add: slot_key_def slot_face_row length_HEXA_FACES)

lemma rows_take:
  assumes "i \<le> 6"
  shows "set (map sort (take i (map (row_face hexa (hid * 8)) HEXA_FACES))) =
         slot_key hexa hid ` {..<i}"
proof -
  have "set (map sort (take i (map (row_face hexa (hid * 8)) HEXA_FACES))) =
      (\<lambda>j. sort (map (row_face hexa (hid * 8)) HEXA_FACES ! j)) ` {..<i}"
    using assms by (intro set_map_take) (simp add: length_HEXA_FACES)
  also have "\<dots> = slot_key hexa hid ` {..<i}"
  proof (rule image_cong [OF refl])
    fix j assume "j \<in> {..<i}"
    then have "j < 6" using assms by simp
    then show "sort (map (row_face hexa (hid * 8)) HEXA_FACES ! j) = slot_key hexa hid j"
      by (rule rows_key)
  qed
  finally show ?thesis .
qed

lemma rows_keys:
  "set (map sort (map (row_face hexa (hid * 8)) HEXA_FACES)) = hexa_keys hexa hid"
  using rows_take [of 6 hexa hid] by (simp add: hexa_keys_def length_HEXA_FACES)

lemma hexa_loop_result:
  assumes "face_map_inv faces f_map" "\<forall>h \<in> set hids. h * 8 + 8 \<le> length hexa"
  shows "\<exists>faces' f_map' P W.
           hexa_loop hexa hids (faces, f_map, polys, wind) = Inr (faces', f_map', polys @ P, wind @ W) \<and>
           face_map_inv faces' f_map' \<and> hexa_post hexa hids faces faces' P W"
  using assms
proof (induction hids arbitrary: faces f_map polys wind)
  case Nil
  then show ?case by (simp add: hexa_post_def)
next
  case (Cons h hids)
  let ?fs = "map (row_face hexa (h * 8)) HEXA_FACES"
  note rows = rows_length [of hexa "h * 8"] rows_key [of _ hexa h] rows_keys [of hexa h]
    rows_take [of _ hexa h]
  have rng: "h * 8 + 8 \<le> length hexa" using Cons.prems(2) by simp
  from fold_add_face [OF Cons.prems(1), of ?fs "[]" "[]"]
  obtain faces1 f_map1 ids' ws' new1 where
    f: "fold add_face ?fs (faces, f_map, [], []) = (faces1, f_map1, [] @ ids', [] @ ws')"
    and inv1: "face_map_inv faces1 f_map1" and pre1: "faces1 = faces @ new1"
    and st1: "set (map sort faces1) = set (map sort faces) \<union> set (map sort ?fs)"
    and ln1: "length ids' = length ?fs" "length ws' = length ?fs"
    and el1: "\<forall>j < length ?fs.
              ids' ! j < length faces1 \<and> sort (faces1 ! (ids' ! j)) = sort (?fs ! j) \<and>
              (ws' ! j \<longleftrightarrow>
                 sort (?fs ! j) \<notin> set (map sort faces) \<union> set (map sort (take j ?fs)))"
    by blast
  have fl: "face_loop hexa (h * 8) HEXA_FACES (faces, f_map, [], []) = Inr (faces1, f_map1, ids', ws')"
    using face_loop_fold [OF subset_refl rng] f by simp
  have rest: "\<forall>h \<in> set hids. h * 8 + 8 \<le> length hexa" using Cons.prems(2) by simp
  from Cons.IH [OF inv1 rest, of "polys @ [ids']" "wind @ [ws']"]
  obtain faces' f_map' P W where
    r: "hexa_loop hexa hids (faces1, f_map1, polys @ [ids'], wind @ [ws'])
          = Inr (faces', f_map', (polys @ [ids']) @ P, (wind @ [ws']) @ W)"
    and inv: "face_map_inv faces' f_map'" and post: "hexa_post hexa hids faces1 faces' P W"
    by blast
  from post obtain new2 where pre: "faces' = faces1 @ new2"
    unfolding hexa_post_def by blast
  from post have st: "set (map sort faces') = set (map sort faces1) \<union> (\<Union>h \<in> set hids. hexa_keys hexa h)"
    and ln: "length P = length hids" "length W = length hids"
    unfolding hexa_post_def by blast+
  from post have el: "\<forall>n < length hids. length (P ! n) = 6 \<and> length (W ! n) = 6 \<and>
              (\<forall>i < 6. P ! n ! i < length faces' \<and>
                 sort (faces' ! (P ! n ! i)) = slot_key hexa (hids ! n) i \<and>
                 (W ! n ! i \<longleftrightarrow>
                    slot_key hexa (hids ! n) i \<notin>
                      set (map sort faces1) \<union> (\<Union>h \<in> set (take n hids). hexa_keys hexa h) \<union>
                      slot_key hexa (hids ! n) ` {..<i}))"
    unfolding hexa_post_def by (elim conjE)
  have r': "hexa_loop hexa (h # hids) (faces, f_map, polys, wind)
      = Inr (faces', f_map', polys @ (ids' # P), wind @ (ws' # W))"
    using fl r by simp
  have st1': "set (map sort faces1) = set (map sort faces) \<union> hexa_keys hexa h"
    using st1 rows(3) by simp
  have st': "set (map sort faces') =
      set (map sort faces) \<union> (\<Union>h \<in> set (h # hids). hexa_keys hexa h)"
    using st st1' by auto
  have el': "\<forall>n < length (h # hids). length ((ids' # P) ! n) = 6 \<and> length ((ws' # W) ! n) = 6 \<and>
              (\<forall>i < 6. (ids' # P) ! n ! i < length faces' \<and>
                 sort (faces' ! ((ids' # P) ! n ! i)) = slot_key hexa ((h # hids) ! n) i \<and>
                 ((ws' # W) ! n ! i \<longleftrightarrow>
                    slot_key hexa ((h # hids) ! n) i \<notin>
                      set (map sort faces) \<union> (\<Union>h \<in> set (take n (h # hids)). hexa_keys hexa h) \<union>
                      slot_key hexa ((h # hids) ! n) ` {..<i}))"
  proof (intro allI impI)
    fix n assume n: "n < length (h # hids)"
    show "length ((ids' # P) ! n) = 6 \<and> length ((ws' # W) ! n) = 6 \<and>
              (\<forall>i < 6. (ids' # P) ! n ! i < length faces' \<and>
                 sort (faces' ! ((ids' # P) ! n ! i)) = slot_key hexa ((h # hids) ! n) i \<and>
                 ((ws' # W) ! n ! i \<longleftrightarrow>
                    slot_key hexa ((h # hids) ! n) i \<notin>
                      set (map sort faces) \<union> (\<Union>h \<in> set (take n (h # hids)). hexa_keys hexa h) \<union>
                      slot_key hexa ((h # hids) ! n) ` {..<i}))"
    proof (cases n)
      case 0
      have "\<forall>i < 6. ids' ! i < length faces' \<and>
                 sort (faces' ! (ids' ! i)) = slot_key hexa h i \<and>
                 (ws' ! i \<longleftrightarrow>
                    slot_key hexa h i \<notin> set (map sort faces) \<union> slot_key hexa h ` {..<i})"
      proof (intro allI impI)
        fix i :: nat assume i: "i < 6"
        then have j: "i < length ?fs" using rows(1) by simp
        from el1 [rule_format, OF j] have
          a: "ids' ! i < length faces1" and b: "sort (faces1 ! (ids' ! i)) = sort (?fs ! i)"
          and c: "ws' ! i \<longleftrightarrow> sort (?fs ! i) \<notin> set (map sort faces) \<union> set (map sort (take i ?fs))"
          by blast+
        have k: "sort (?fs ! i) = slot_key hexa h i" using rows(2) [OF i] .
        have t: "set (map sort (take i ?fs)) = slot_key hexa h ` {..<i}"
          using rows(4) [of i] i by simp
        have "ids' ! i < length faces'" using a pre by simp
        moreover have "sort (faces' ! (ids' ! i)) = slot_key hexa h i"
          using a b pre k by (simp add: nth_append)
        moreover have "ws' ! i \<longleftrightarrow>
                    slot_key hexa h i \<notin> set (map sort faces) \<union> slot_key hexa h ` {..<i}"
          using c unfolding k t .
        ultimately show "ids' ! i < length faces' \<and>
                 sort (faces' ! (ids' ! i)) = slot_key hexa h i \<and>
                 (ws' ! i \<longleftrightarrow>
                    slot_key hexa h i \<notin> set (map sort faces) \<union> slot_key hexa h ` {..<i})"
          by blast
      qed
      then show ?thesis using 0 ln1 rows(1) by simp
    next
      case (Suc m)
      then have m: "m < length hids" using n by simp
      have u: "set (map sort faces1) \<union> (\<Union>h \<in> set (take m hids). hexa_keys hexa h) =
          set (map sort faces) \<union> (\<Union>h \<in> set (take (Suc m) (h # hids)). hexa_keys hexa h)"
        unfolding st1' by auto
      from el [rule_format, OF m] show ?thesis
        unfolding Suc u by simp
    qed
  qed
  have "\<exists>new. faces' = faces @ new" using pre pre1 by simp
  then have "hexa_post hexa (h # hids) faces faces' (ids' # P) (ws' # W)"
    unfolding hexa_post_def using st' ln el' by simp
  then show ?case using r' inv by blast
qed

lemma hexa_in_range:
  assumes "h \<in> set [0..<length hexa div 8]"
  shows "h * 8 + 8 \<le> length hexa"
proof -
  have "Suc h \<le> length hexa div 8" using assms by simp
  then have "Suc h * 8 \<le> length hexa div 8 * 8" by (rule mult_le_mono1)
  also have "\<dots> \<le> length hexa" by simp
  finally show ?thesis by simp
qed

lemma in_hexa_keys:
  "k \<in> (\<Union>h \<in> set [0..<hid]. hexa_keys hexa h) \<longleftrightarrow>
     (\<exists>hid' < hid. \<exists>i' < 6. slot_key hexa hid' i' = k)"
  by (auto simp: hexa_keys_def)

lemma in_slot_keys:
  "k \<in> slot_key hexa hid ` {..<i} \<longleftrightarrow> (\<exists>i' < i. slot_key hexa hid i' = k)"
  by auto

text \<open>
  Claim C10, amended. For every vertex-id list the call returns without an exception;
  \<open>polys\<close> and the winding list have \<open>hexa.size()/8\<close> entries of six elements each;
  the sorted tuples of \<open>faces\<close> are pairwise distinct and are exactly the sorted
  tuples of the faces of the hexahedra; every face id of \<open>polys\<close> is an index into
  \<open>faces\<close>, of a face with the slot's sorted tuple; and the winding flag of a face slot
  is true exactly when no earlier hexahedron and no earlier slot of the same hexahedron
  has that sorted tuple. When the six faces of the hexahedron have pairwise distinct
  sorted tuples, that is exactly when the hexahedron is the first to introduce the face.
\<close>

theorem hexahedra_to_polyhedra:
  "\<exists>faces polys winding.
     from_hexahedra_to_general_polyhedra hexa = Inr (faces, polys, winding) \<and>
     length polys = length hexa div 8 \<and> length winding = length hexa div 8 \<and>
     distinct (map sort faces) \<and>
     set (map sort faces) = (\<Union>hid \<in> {..<length hexa div 8}. slot_key hexa hid ` {..<6}) \<and>
     (\<forall>hid < length hexa div 8.
        length (polys ! hid) = 6 \<and> length (winding ! hid) = 6 \<and>
        (\<forall>i < 6.
           polys ! hid ! i < length faces \<and>
           sort (faces ! (polys ! hid ! i)) = slot_key hexa hid i \<and>
           (winding ! hid ! i \<longleftrightarrow>
              first_to_introduce hexa hid i \<and>
              (\<forall>i' < i. slot_key hexa hid i' \<noteq> slot_key hexa hid i)) \<and>
           (distinct (map (slot_key hexa hid) [0..<6]) \<longrightarrow>
              (winding ! hid ! i \<longleftrightarrow> first_to_introduce hexa hid i))))"
proof -
  let ?n = "length hexa div 8"
  have inv0: "face_map_inv [] []" by (simp add: face_map_inv_def)
  have rng: "\<forall>h \<in> set [0..<?n]. h * 8 + 8 \<le> length hexa" using hexa_in_range by blast
  from hexa_loop_result [OF inv0 rng, of "[]" "[]"] obtain faces f_map P W where
    r: "hexa_loop hexa [0..<?n] ([], [], [], []) = Inr (faces, f_map, [] @ P, [] @ W)"
    and inv: "face_map_inv faces f_map" and post: "hexa_post hexa [0..<?n] [] faces P W"
    by blast
  have res: "from_hexahedra_to_general_polyhedra hexa = Inr (faces, P, W)"
    using r by (simp add: from_hexahedra_to_general_polyhedra_def)
  have d: "distinct (map sort faces)" using inv by (simp add: face_map_inv_def)
  from post have ln: "length P = ?n" "length W = ?n"
    unfolding hexa_post_def by simp_all
  from post have "set (map sort faces) = set (map sort []) \<union> (\<Union>h \<in> set [0..<?n]. hexa_keys hexa h)"
    unfolding hexa_post_def by (elim conjE)
  then have st: "set (map sort faces) = (\<Union>hid \<in> {..<?n}. slot_key hexa hid ` {..<6})"
    by (simp add: hexa_keys_def atLeast0LessThan)
  from post have el: "\<forall>n < length [0..<?n]. length (P ! n) = 6 \<and> length (W ! n) = 6 \<and>
        (\<forall>i < 6. P ! n ! i < length faces \<and>
           sort (faces ! (P ! n ! i)) = slot_key hexa ([0..<?n] ! n) i \<and>
           (W ! n ! i \<longleftrightarrow>
              slot_key hexa ([0..<?n] ! n) i \<notin>
                set (map sort []) \<union> (\<Union>h \<in> set (take n [0..<?n]). hexa_keys hexa h) \<union>
                slot_key hexa ([0..<?n] ! n) ` {..<i}))"
    unfolding hexa_post_def by (elim conjE)
  have all: "\<forall>hid < ?n.
        length (P ! hid) = 6 \<and> length (W ! hid) = 6 \<and>
        (\<forall>i < 6.
           P ! hid ! i < length faces \<and>
           sort (faces ! (P ! hid ! i)) = slot_key hexa hid i \<and>
           (W ! hid ! i \<longleftrightarrow>
              first_to_introduce hexa hid i \<and>
              (\<forall>i' < i. slot_key hexa hid i' \<noteq> slot_key hexa hid i)) \<and>
           (distinct (map (slot_key hexa hid) [0..<6]) \<longrightarrow>
              (W ! hid ! i \<longleftrightarrow> first_to_introduce hexa hid i)))"
  proof (intro allI impI)
    fix hid assume hid: "hid < ?n"
    then have h': "hid < length [0..<?n]" by simp
    have nth: "[0..<?n] ! hid = hid" using hid by simp
    have tk: "take hid [0..<?n] = [0..<hid]" using hid by (simp add: take_upt)
    from el [rule_format, OF h'] have l: "length (P ! hid) = 6" "length (W ! hid) = 6"
      and e: "\<forall>i < 6. P ! hid ! i < length faces \<and>
           sort (faces ! (P ! hid ! i)) = slot_key hexa hid i \<and>
           (W ! hid ! i \<longleftrightarrow>
              slot_key hexa hid i \<notin>
                set (map sort []) \<union> (\<Union>h \<in> set [0..<hid]. hexa_keys hexa h) \<union>
                slot_key hexa hid ` {..<i})"
      unfolding nth tk by blast+
    have "\<forall>i < 6.
           P ! hid ! i < length faces \<and>
           sort (faces ! (P ! hid ! i)) = slot_key hexa hid i \<and>
           (W ! hid ! i \<longleftrightarrow>
              first_to_introduce hexa hid i \<and>
              (\<forall>i' < i. slot_key hexa hid i' \<noteq> slot_key hexa hid i)) \<and>
           (distinct (map (slot_key hexa hid) [0..<6]) \<longrightarrow>
              (W ! hid ! i \<longleftrightarrow> first_to_introduce hexa hid i))"
    proof (intro allI impI)
      fix i :: nat assume i: "i < 6"
      from e [rule_format, OF i] have a: "P ! hid ! i < length faces"
        and b: "sort (faces ! (P ! hid ! i)) = slot_key hexa hid i"
        and c: "W ! hid ! i \<longleftrightarrow>
              slot_key hexa hid i \<notin>
                set (map sort []) \<union> (\<Union>h \<in> set [0..<hid]. hexa_keys hexa h) \<union>
                slot_key hexa hid ` {..<i}"
        by blast+
      have w: "W ! hid ! i \<longleftrightarrow>
              first_to_introduce hexa hid i \<and>
              (\<forall>i' < i. slot_key hexa hid i' \<noteq> slot_key hexa hid i)"
        unfolding c first_to_introduce_def
        using in_hexa_keys [where k = "slot_key hexa hid i" and hid = hid and hexa = hexa]
          in_slot_keys [where k = "slot_key hexa hid i" and hid = hid and hexa = hexa and i = i]
        by auto
      have dd: "\<forall>i' < i. slot_key hexa hid i' \<noteq> slot_key hexa hid i"
        if ds: "distinct (map (slot_key hexa hid) [0..<6])"
      proof (intro allI impI)
        fix i' assume i': "i' < i"
        have "inj_on (slot_key hexa hid) (set [0..<6])"
          using ds by (simp only: distinct_map)
        moreover have "i' \<in> set [0..<6]" "i \<in> set [0..<6]" "i' \<noteq> i"
          using i i' by (simp_all del: upt.simps)
        ultimately show "slot_key hexa hid i' \<noteq> slot_key hexa hid i"
          by (meson inj_onD)
      qed
      show "P ! hid ! i < length faces \<and>
           sort (faces ! (P ! hid ! i)) = slot_key hexa hid i \<and>
           (W ! hid ! i \<longleftrightarrow>
              first_to_introduce hexa hid i \<and>
              (\<forall>i' < i. slot_key hexa hid i' \<noteq> slot_key hexa hid i)) \<and>
           (distinct (map (slot_key hexa hid) [0..<6]) \<longrightarrow>
              (W ! hid ! i \<longleftrightarrow> first_to_introduce hexa hid i))"
        using a b w dd by (intro conjI impI) simp_all
    qed
    then show "length (P ! hid) = 6 \<and> length (W ! hid) = 6 \<and>
        (\<forall>i < 6.
           P ! hid ! i < length faces \<and>
           sort (faces ! (P ! hid ! i)) = slot_key hexa hid i \<and>
           (W ! hid ! i \<longleftrightarrow>
              first_to_introduce hexa hid i \<and>
              (\<forall>i' < i. slot_key hexa hid i' \<noteq> slot_key hexa hid i)) \<and>
           (distinct (map (slot_key hexa hid) [0..<6]) \<longrightarrow>
              (W ! hid ! i \<longleftrightarrow> first_to_introduce hexa hid i)))"
      using l by (intro conjI)
  qed
  show ?thesis
    using res ln d st all by (intro exI [of _ faces] exI [of _ P] exI [of _ W] conjI)
qed

text \<open>
  Claim C10, as stated: the winding flag of a face within a polyhedron is true exactly
  when that polyhedron is the first to introduce the face. It fails for the hexahedron
  whose eight vertex ids are all 0: its six faces have the same sorted tuple, the
  hexahedron is the first to introduce it, and the flags of faces 1 to 5 are false.
\<close>

theorem winding_in_degenerate_hexahedron:
  "from_hexahedra_to_general_polyhedra (replicate 8 0) =
     Inr ([[0, 0, 0, 0]], [[0, 0, 0, 0, 0, 0]], [[True, False, False, False, False, False]]) \<and>
   length (replicate 8 (0::nat)) mod 8 = 0 \<and>
   first_to_introduce (replicate 8 0) 0 1 \<and>
   \<not> ([[True, False, False, False, False, False]] ! 0 ! 1 \<longleftrightarrow>
        first_to_introduce (replicate 8 0) 0 1)"
proof -
  have "from_hexahedra_to_general_polyhedra (replicate 8 0) =
     Inr ([[0, 0, 0, 0]], [[0, 0, 0, 0, 0, 0]], [[True, False, False, False, False, False]])"
    by code_simp
  moreover have "first_to_introduce (replicate 8 0) 0 1"
    by (simp add: first_to_introduce_def)
  ultimately show ?thesis by simp
qed

theorem hexahedra_to_polyhedra_witness:
  "from_hexahedra_to_general_polyhedra two_hexahedra =
     Inr ([[0, 3, 2, 1], [1, 2, 6, 5], [4, 5, 6, 7], [3, 0, 4, 7], [0, 1, 5, 4], [2, 3, 7, 6],
           [5, 6, 10, 9], [8, 9, 10, 11], [7, 4, 8, 11], [4, 5, 9, 8], [6, 7, 11, 10]],
          [[0, 1, 2, 3, 4, 5], [2, 6, 7, 8, 9, 10]],
          [[True, True, True, True, True, True], [False, True, True, True, True, True]]) \<and>
   \<not> first_to_introduce two_hexahedra 1 0 \<and> first_to_introduce two_hexahedra 1 1"
proof -
  let ?faces = "[[0, 3, 2, 1], [1, 2, 6, 5], [4, 5, 6, 7], [3, 0, 4, 7], [0, 1, 5, 4], [2, 3, 7, 6],
           [5, 6, 10, 9], [8, 9, 10, 11], [7, 4, 8, 11], [4, 5, 9, 8], [6, 7, 11, 10::nat]]"
  let ?polys = "[[0, 1, 2, 3, 4, 5], [2, 6, 7, 8, 9, 10::nat]]"
  let ?wind = "[[True, True, True, True, True, True], [False, True, True, True, True, True]]"
  have v: "from_hexahedra_to_general_polyhedra two_hexahedra = Inr (?faces, ?polys, ?wind)"
    by code_simp
  have n: "length two_hexahedra div 8 = 2" by (simp add: two_hexahedra_def)
  have ds: "distinct (map (slot_key two_hexahedra 1) [0..<6])" by code_simp
  from hexahedra_to_polyhedra [of two_hexahedra]
  obtain faces polys winding where
    r: "from_hexahedra_to_general_polyhedra two_hexahedra = Inr (faces, polys, winding)"
    and p: "\<forall>hid < length two_hexahedra div 8.
        length (polys ! hid) = 6 \<and> length (winding ! hid) = 6 \<and>
        (\<forall>i < 6.
           polys ! hid ! i < length faces \<and>
           sort (faces ! (polys ! hid ! i)) = slot_key two_hexahedra hid i \<and>
           (winding ! hid ! i \<longleftrightarrow>
              first_to_introduce two_hexahedra hid i \<and>
              (\<forall>i' < i. slot_key two_hexahedra hid i' \<noteq> slot_key two_hexahedra hid i)) \<and>
           (distinct (map (slot_key two_hexahedra hid) [0..<6]) \<longrightarrow>
              (winding ! hid ! i \<longleftrightarrow> first_to_introduce two_hexahedra hid i)))"
    by (elim exE conjE) (rule that; assumption)
  have w: "winding = ?wind" using r v by simp
  have one: "(1::nat) < length two_hexahedra div 8" using n by simp
  have t: "\<And>i. i < 6 \<Longrightarrow> ?wind ! 1 ! i \<longleftrightarrow> first_to_introduce two_hexahedra 1 i"
    using p [rule_format, OF one] ds unfolding w by blast
  have "?wind ! 1 ! 0 \<longleftrightarrow> first_to_introduce two_hexahedra 1 0"
    using t [of 0] by simp
  moreover have "?wind ! 1 ! 1 \<longleftrightarrow> first_to_introduce two_hexahedra 1 1"
    using t [of 1] by simp
  ultimately show ?thesis using v by simp
qed

end
